theory Spec2Isabelle
  imports Complex_Main
begin
section \<open>Python values used by the scraper\<close>

text \<open>
  A Python \<open>str\<close> is modelled as a \<open>string\<close>: a list of characters, each character a code
  point below 256.  The exceptions that the modelled code can meet are values of \<open>exn\<close>, and
  a call that may raise returns \<open>exn + 'a\<close> with \<open>Inl\<close> for the exception.
\<close>

datatype exn = TimeoutError | StrictModeViolation | ValueError | AttributeError

definition is_digit :: "char \<Rightarrow> bool" where
  "is_digit c = (48 \<le> (of_char c :: nat) \<and> (of_char c :: nat) \<le> 57)"

text \<open>\<open>str.isspace\<close> on one character, which is also what \<open>\s\<close> accepts in a \<open>str\<close>
  pattern: tab, line feed, vertical tab, form feed, carriage return, the four separators
  1C..1F, space, NEL (85) and the no-break space (A0).\<close>

definition is_space :: "char \<Rightarrow> bool" where
  "is_space c = ((of_char c :: nat) \<in> set [9, 10, 11, 12, 13, 28, 29, 30, 31, 32, 133, 160])"

definition strip :: "string \<Rightarrow> string" where
  "strip s = rev (dropWhile is_space (rev (dropWhile is_space s)))"

definition digit_val :: "char \<Rightarrow> nat" where
  "digit_val c = of_char c - 48"

definition digits_val :: "string \<Rightarrow> nat" where
  "digits_val ds = foldl (\<lambda>a c. 10 * a + digit_val c) 0 ds"

text \<open>\<open>int(s)\<close> on a run of decimal digits.  CPython refuses to convert a digit string of
  more than 4300 characters (leading zeros count) and raises \<open>ValueError\<close>.  Other
  spellings that Python accepts (a sign, surrounding blanks, underscores) never reach it
  from the patterns below and are outside the model; they are answered with \<open>ValueError\<close>.\<close>

definition max_str_digits :: nat where
  "max_str_digits = 4300"

definition py_int :: "string \<Rightarrow> exn + int" where
  "py_int s =
     (if s \<noteq> [] \<and> list_all is_digit s \<and> length s \<le> max_str_digits
      then Inr (int (digits_val s)) else Inl ValueError)"

text \<open>\<open>float(s)\<close> on the spellings \<open>ddd\<close>, \<open>ddd.\<close> and \<open>ddd.ddd\<close>.  The result is the exact
  decimal value; Python rounds it to the nearest double, which leaves 0.0, 3.0, 4.5 and
  9.0 as they are and keeps every value non-negative.\<close>

definition py_float :: "string \<Rightarrow> exn + real" where
  "py_float s =
     (let ip = takeWhile is_digit s; rest = dropWhile is_digit s in
      if ip = [] then Inl ValueError
      else case rest of
          [] \<Rightarrow> Inr (real (digits_val ip))
        | c # fp \<Rightarrow>
            if c = CHR ''.'' \<and> list_all is_digit fp
            then Inr (real (digits_val ip) + real (digits_val fp) / 10 ^ length fp)
            else Inl ValueError)"

section \<open>The regular expressions of the value parsers\<close>

text \<open>
  The five patterns of \<open>scrape.py\<close> are sequences of one-character atoms, each with a
  quantifier, and at most one capturing group.  \<open>match_here\<close> is the backtracking matcher
  of Python's \<open>re\<close> on such a sequence, anchored at the start of its input: a greedy
  quantifier tries to take one more character first and falls back to the rest of the
  pattern, the lazy star tries the rest of the pattern first.  The capture state records
  where the group opened and, once it has closed, its text.
\<close>

datatype cls = Lit char | Digit | Space | Dot

fun accepts :: "cls \<Rightarrow> char \<Rightarrow> bool" where
  "accepts (Lit c) x = (x = c)"
| "accepts Digit x = is_digit x"
| "accepts Space x = is_space x"
| "accepts Dot x = (x \<noteq> CHR 0x0A)"

datatype quant = Once | Opt | Star | Plus | LazyStar

datatype item = Ch cls quant | GroupOpen | GroupClose

datatype capture = NoGroup | OpenAt string | Captured string

fun match_here :: "item list \<Rightarrow> capture \<Rightarrow> string \<Rightarrow> (capture \<times> string) option" where
  "match_here [] g s = Some (g, s)"
| "match_here (GroupOpen # r) g s = match_here r (OpenAt s) s"
| "match_here (GroupClose # r) g s =
     match_here r (case g of OpenAt s0 \<Rightarrow> Captured (take (length s0 - length s) s0) | _ \<Rightarrow> g) s"
| "match_here (Ch c Once # r) g s =
     (case s of [] \<Rightarrow> None
      | x # xs \<Rightarrow> if accepts c x then match_here r g xs else None)"
| "match_here (Ch c Opt # r) g s =
     (case s of [] \<Rightarrow> match_here r g s
      | x # xs \<Rightarrow>
          if accepts c x
          then (case match_here r g xs of Some m \<Rightarrow> Some m | None \<Rightarrow> match_here r g s)
          else match_here r g s)"
| "match_here (Ch c Star # r) g s =
     (case s of [] \<Rightarrow> match_here r g s
      | x # xs \<Rightarrow>
          if accepts c x
          then (case match_here (Ch c Star # r) g xs of Some m \<Rightarrow> Some m
                | None \<Rightarrow> match_here r g s)
          else match_here r g s)"
| "match_here (Ch c Plus # r) g s =
     (case s of [] \<Rightarrow> None
      | x # xs \<Rightarrow> if accepts c x then match_here (Ch c Star # r) g xs else None)"
| "match_here (Ch c LazyStar # r) g s =
     (case match_here r g s of Some m \<Rightarrow> Some m
      | None \<Rightarrow>
          (case s of [] \<Rightarrow> None
           | x # xs \<Rightarrow> if accepts c x then match_here (Ch c LazyStar # r) g xs else None))"

text \<open>\<open>re.search\<close>: the match at the leftmost start position that has one.\<close>

fun search :: "item list \<Rightarrow> string \<Rightarrow> (capture \<times> string) option" where
  "search p [] = match_here p NoGroup []"
| "search p (x # xs) =
     (case match_here p NoGroup (x # xs) of Some m \<Rightarrow> Some m | None \<Rightarrow> search p xs)"

text \<open>\<open>m.group(1)\<close> of the match found by \<open>re.search\<close>, when there is one.\<close>

definition search_group1 :: "item list \<Rightarrow> string \<Rightarrow> string option" where
  "search_group1 p s =
     (case search p s of Some (Captured t, _) \<Rightarrow> Some t | _ \<Rightarrow> None)"

text \<open>\<open>re.sub(p, '', s)\<close> for a pattern whose matches are never empty: every leftmost,
  non-overlapping match is deleted.  A position with no match, or with an empty one, keeps
  its character.\<close>

fun re_sub_del :: "item list \<Rightarrow> string \<Rightarrow> string" where
  "re_sub_del p s =
     (case match_here p NoGroup s of
        Some (_, rest) \<Rightarrow>
          if length rest < length s then re_sub_del p rest
          else (case s of [] \<Rightarrow> [] | x # xs \<Rightarrow> x # re_sub_del p xs)
      | None \<Rightarrow> (case s of [] \<Rightarrow> [] | x # xs \<Rightarrow> x # re_sub_del p xs))"

declare re_sub_del.simps [simp del]

definition lits :: "string \<Rightarrow> item list" where
  "lits s = map (\<lambda>c. Ch (Lit c) Once) s"

definition number_group :: "item list" where
  "number_group = [GroupOpen, Ch Digit Plus, Ch (Lit CHR ''.'') Opt, Ch Digit Star, GroupClose]"

text \<open>\<^verbatim>\<open>(\d+\.?\d*)\s+out of\s+5\<close>\<close>

definition out_of_5_re :: "item list" where
  "out_of_5_re =
     number_group @ [Ch Space Plus] @ lits ''out of'' @ [Ch Space Plus, Ch (Lit CHR ''5'') Once]"

text \<open>\<^verbatim>\<open>(\d+\.?\d*)\s+stars?\<close>\<close>

definition stars_re :: "item list" where
  "stars_re = number_group @ [Ch Space Plus] @ lits ''star'' @ [Ch (Lit CHR ''s'') Opt]"

text \<open>\<^verbatim>\<open>(\d+\.?\d*)\s+out of\<close>\<close>

definition out_of_re :: "item list" where
  "out_of_re = number_group @ [Ch Space Plus] @ lits ''out of''"

text \<open>\<^verbatim>\<open>(\d+)\s+people?\s+found\<close>\<close>

definition helpful_re :: "item list" where
  "helpful_re =
     [GroupOpen, Ch Digit Plus, GroupClose, Ch Space Plus] @ lits ''peopl''
       @ [Ch (Lit CHR ''e'') Opt, Ch Space Plus] @ lits ''found''"

text \<open>\<^verbatim>\<open>Reviewed in.*?on\s+\<close>\<close>

definition date_re :: "item list" where
  "date_re = lits ''Reviewed in'' @ [Ch Dot LazyStar] @ lits ''on'' @ [Ch Space Plus]"

section \<open>The value parsers of \<open>AmazonReviewsScraper\<close>\<close>

text \<open>The methods \<open>_extract_rating\<close>, \<open>_extract_rating_from_stars\<close>, \<open>_clean_date\<close> and
  \<open>_extract_helpful_votes\<close>, without the leading underscore of their names.\<close>

definition extract_rating :: "string \<Rightarrow> exn + real" where
  "extract_rating rating_text =
     (if rating_text = [] then Inr 0
      else case search_group1 out_of_re rating_text of
          Some g \<Rightarrow> py_float g
        | None \<Rightarrow> Inr 0)"

definition extract_rating_from_stars :: "string \<Rightarrow> exn + real" where
  "extract_rating_from_stars text =
     (if text = [] then Inr 0
      else case search_group1 out_of_5_re text of
          Some g \<Rightarrow> py_float g
        | None \<Rightarrow>
            (case search_group1 stars_re text of
               Some g \<Rightarrow> py_float g
             | None \<Rightarrow> Inr 0))"

definition clean_date :: "string \<Rightarrow> string" where
  "clean_date date_text =
     (if date_text = [] then [] else strip (re_sub_del date_re date_text))"

definition extract_helpful_votes :: "string \<Rightarrow> exn + int" where
  "extract_helpful_votes text =
     (if text = [] then Inr 0
      else case search_group1 helpful_re text of
          Some g \<Rightarrow> py_int g
        | None \<Rightarrow> Inr 0)"
section \<open>The pages that the browser driver shows\<close>

text \<open>
  The browser driver (Playwright) is outside the repository.  A loaded page is modelled as
  a snapshot: its URL and, for every selector, the elements that the selector matches, in
  document order.  An element has attributes, a text content and, for every selector, the
  elements below it that the selector matches.  A \<open>Locator\<close> is the list of elements it
  resolves to.  \<open>text_content\<close> and \<open>get_attribute\<close> need exactly one element: on none
  they time out, on several they raise the driver's strict-mode error.
\<close>

datatype element =
  Element (el_attribute: "string \<Rightarrow> string option") (el_text: "string option")
    (el_select: "string \<Rightarrow> element list")

record page =
  page_url :: string
  page_select :: "string \<Rightarrow> element list"

type_synonym locator = "element list"

definition text_content :: "locator \<Rightarrow> exn + string option" where
  "text_content l =
     (case l of [] \<Rightarrow> Inl TimeoutError
      | [e] \<Rightarrow> Inr (el_text e)
      | _ \<Rightarrow> Inl StrictModeViolation)"

definition get_attribute :: "locator \<Rightarrow> string \<Rightarrow> exn + string option" where
  "get_attribute l name =
     (case l of [] \<Rightarrow> Inl TimeoutError
      | [e] \<Rightarrow> Inr (el_attribute e name)
      | _ \<Rightarrow> Inl StrictModeViolation)"

definition first :: "locator \<Rightarrow> locator" where
  "first l = take 1 l"

text \<open>Sequencing of calls that may raise: the first exception ends the block.\<close>

definition and_then :: "exn + 'a \<Rightarrow> ('a \<Rightarrow> exn + 'b) \<Rightarrow> exn + 'b" where
  "and_then m f = (case m of Inl e \<Rightarrow> Inl e | Inr a \<Rightarrow> f a)"

text \<open>Python's truth value of an \<open>Optional[str]\<close>, and the string it holds.\<close>

definition truthy :: "string option \<Rightarrow> bool" where
  "truthy t = (case t of None \<Rightarrow> False | Some s \<Rightarrow> s \<noteq> [])"

definition str_of :: "string option \<Rightarrow> string" where
  "str_of t = (case t of None \<Rightarrow> [] | Some s \<Rightarrow> s)"

text \<open>\<open>t.strip()\<close> on an \<open>Optional[str]\<close>: \<open>None\<close> has no such method.\<close>

definition strip_opt :: "string option \<Rightarrow> exn + string" where
  "strip_opt t = (case t of None \<Rightarrow> Inl AttributeError | Some s \<Rightarrow> Inr (strip s))"

definition startswith :: "string \<Rightarrow> string \<Rightarrow> bool" where
  "startswith s pre = (take (length pre) s = pre)"

text \<open>\<open>sub in s\<close>\<close>

fun contains :: "string \<Rightarrow> string \<Rightarrow> bool" where
  "contains sub [] = (sub = [])"
| "contains sub (x # xs) = (startswith (x # xs) sub \<or> contains sub xs)"

definition lower_char :: "char \<Rightarrow> char" where
  "lower_char c =
     (let n = (of_char c :: nat) in
      if (65 \<le> n \<and> n \<le> 90) \<or> (192 \<le> n \<and> n \<le> 222 \<and> n \<noteq> 215) then char_of (n + 32) else c)"

definition lower :: "string \<Rightarrow> string" where
  "lower s = map lower_char s"

fun str_nat :: "nat \<Rightarrow> string" where
  "str_nat n =
     (if n < 10 then [char_of (48 + n)] else str_nat (n div 10) @ [char_of (48 + n mod 10)])"

declare str_nat.simps [simp del]

definition str_int :: "int \<Rightarrow> string" where
  "str_int n = (if n < 0 then CHR ''-'' # str_nat (nat (- n)) else str_nat (nat n))"

text \<open>\<open>xs[:k]\<close>, where a negative \<open>k\<close> counts from the end.\<close>

definition py_take :: "int \<Rightarrow> 'a list \<Rightarrow> 'a list" where
  "py_take k xs = (if k < 0 then take (nat (int (length xs) + k)) xs else take (nat k) xs)"

text \<open>\<open>page.goto(url)\<close> on the site: the page it loads, or the exception it raises.\<close>

type_synonym site = "string \<Rightarrow> exn + page"

section \<open>Product discovery: \<open>search_products\<close>\<close>

record product =
  asin :: string
  title :: string
  link :: "string option"
  price :: "string option"
  product_rating :: real
  position :: nat

definition selectors :: "string list" where
  \<open>selectors =
     [''[data-component-type="s-search-result"]'', ''[data-asin]:not([data-asin=""])'',
      ''.s-result-item[data-asin]'', ''div.s-card-container'']\<close>

definition title_selectors :: "string list" where
  "title_selectors = [''h2 a span'', ''h2 span'', ''.a-text-normal'', ''.s-link-style span'']"

definition search_url :: "string \<Rightarrow> string" where
  "search_url keyword =
     ''https://www.amazon.com/s?k='' @ map (\<lambda>c. if c = CHR '' '' then CHR ''+'' else c) keyword"

text \<open>The loop over the result-container selectors: the selector chosen, and the selectors
  that were queried.  On a snapshot \<open>count()\<close> does not raise, so the \<open>except: continue\<close>
  of the source has nothing to catch.\<close>

fun result_selector_loop :: "page \<Rightarrow> string list \<Rightarrow> string option \<times> string list" where
  "result_selector_loop p [] = (None, [])"
| "result_selector_loop p (selector # rest) =
     (if length (page_select p selector) > 0 then (Some selector, [selector])
      else (case result_selector_loop p rest of (r, q) \<Rightarrow> (r, selector # q)))"

text \<open>The loop over the title selectors of one card: the title text, and the selectors that
  were queried.\<close>

fun title_loop :: "element \<Rightarrow> string list \<Rightarrow> (exn + string option) \<times> string list" where
  "title_loop card_elem [] = (Inr (Some ''Unknown''), [])"
| "title_loop card_elem (ts # rest) =
     (let title_element = el_select card_elem ts in
      if length title_element > 0 then (text_content (first title_element), [ts])
      else (case title_loop card_elem rest of (r, q) \<Rightarrow> (r, ts # q)))"

text \<open>The sub-fields of one card (title, link, price, rating), read in the order of the
  source; the first exception ends the reading.\<close>

definition card_fields ::
  "element \<Rightarrow> exn + (string option \<times> string option \<times> string option \<times> real)" where
  \<open>card_fields card_elem =
     and_then (fst (title_loop card_elem title_selectors)) (\<lambda>title_text.
     let link_element = first (el_select card_elem ''h2 a, a.s-link, a[href*="/dp/"]'') in
     and_then (if length link_element > 0 then get_attribute link_element ''href''
               else Inr (Some [])) (\<lambda>relative_link.
     let full_link =
           (if truthy relative_link \<and> \<not> startswith (str_of relative_link) ''http''
            then Some (''https://www.amazon.com'' @ str_of relative_link) else relative_link);
         price_element = first (el_select card_elem ''.a-price-whole, .a-price span'') in
     and_then (if length price_element > 0 then text_content price_element
               else Inr (Some ''N/A'')) (\<lambda>price_text.
     let rating_element =
           el_select card_elem ''[aria-label*="out of 5 stars"], .a-icon-star-small'' in
     and_then (if length rating_element > 0 then get_attribute rating_element ''aria-label''
               else Inr (Some [])) (\<lambda>rating_label.
     and_then (if \<not> truthy rating_label
               then (if length rating_element > 0 then text_content rating_element
                     else Inr (Some []))
               else Inr rating_label) (\<lambda>rating_text.
     and_then (extract_rating (str_of rating_text)) (\<lambda>r.
     Inr (title_text, full_link, price_text, r)))))))\<close>

text \<open>The body of the \<open>try\<close> for one card: \<open>Inr None\<close> is the \<open>continue\<close> on a missing ASIN,
  \<open>Inl\<close> an exception, which the source logs before it goes on to the next card.\<close>

definition extract_product :: "nat \<Rightarrow> element \<Rightarrow> exn + product option" where
  "extract_product i card_elem =
     and_then (get_attribute [card_elem] ''data-asin'') (\<lambda>asin_attr.
     if \<not> truthy asin_attr then Inr None
     else
     and_then (card_fields card_elem) (\<lambda>(title_text, full_link, price_text, r).
     Inr (Some \<lparr>asin = str_of asin_attr,
                title = (if truthy title_text then strip (str_of title_text) else ''Unknown''),
                link = full_link, price = price_text, product_rating = r,
                position = i + 1\<rparr>)))"

text \<open>The loop over \<open>enumerate(product_cards[:max_products])\<close>.\<close>

fun products_loop :: "(nat \<times> element) list \<Rightarrow> product list" where
  "products_loop [] = []"
| "products_loop ((i, card_elem) # rest) =
     (case extract_product i card_elem of
        Inr (Some pr) \<Rightarrow> pr # products_loop rest
      | _ \<Rightarrow> products_loop rest)"

definition search_products :: "site \<Rightarrow> string \<Rightarrow> int \<Rightarrow> product list" where
  "search_products site keyword max_products =
     (case site (search_url keyword) of
        Inl e \<Rightarrow> []
      | Inr p \<Rightarrow>
          (case fst (result_selector_loop p selectors) of
             None \<Rightarrow> []
           | Some result_selector \<Rightarrow>
               products_loop (enumerate 0 (py_take max_products (page_select p result_selector)))))"

section \<open>Review harvesting: \<open>scrape_reviews\<close> and \<open>_extract_reviews_from_page\<close>\<close>

record review =
  product_id :: string
  product_title :: string
  reviewer :: string
  rating :: real
  date :: string
  verified_purchase :: bool
  content :: string
  helpful_votes :: int

text \<open>What the harvester does to the outside: the pages it requests and the screenshots it
  takes (of a page without reviews, of a login redirect).\<close>

datatype event = Goto string | Screenshot string

definition review_selectors :: "string list" where
  \<open>review_selectors =
     [''[data-hook="review"]'', ''div[id*="customer_review"]'', ''.review'',
      ''div.a-section.review'']\<close>

text \<open>The selectors with which \<open>scrape_reviews\<close> itself looks for reviews on a page.\<close>

definition found_selectors :: "string list" where
  \<open>found_selectors = [''[data-hook="review"]'', ''div.review'', ''[id*="customer_review"]'']\<close>

fun found_reviews_loop :: "page \<Rightarrow> string list \<Rightarrow> bool \<times> string list" where
  "found_reviews_loop p [] = (False, [])"
| "found_reviews_loop p (selector # rest) =
     (if length (page_select p selector) > 0 then (True, [selector])
      else (case found_reviews_loop p rest of (r, q) \<Rightarrow> (r, selector # q)))"

text \<open>The loop over the review selectors: the elements of the selector chosen (none when no
  selector matches), and the selectors that were queried.\<close>

fun review_elements_loop :: "page \<Rightarrow> string list \<Rightarrow> element list \<times> string list" where
  "review_elements_loop p [] = ([], [])"
| "review_elements_loop p (selector # rest) =
     (let review_elements = page_select p selector in
      if review_elements \<noteq> [] then (review_elements, [selector])
      else (case review_elements_loop p rest of (r, q) \<Rightarrow> (r, selector # q)))"

text \<open>The body of the \<open>try\<close> for one review element.\<close>

definition extract_review :: "string \<Rightarrow> string \<Rightarrow> element \<Rightarrow> exn + review" where
  \<open>extract_review asin_id title_text element =
     (let reviewer_elem = el_select element ''.a-profile-name'' in
      and_then (if length reviewer_elem > 0 then text_content reviewer_elem
                else Inr (Some ''Anonymous'')) (\<lambda>reviewer_text.
      let rating_elem = el_select element
            ''[data-hook="review-star-rating"], [data-hook="cmps-review-star-rating"]'' in
      and_then (if length rating_elem > 0 then text_content rating_elem
                else Inr (Some [])) (\<lambda>rating_text.
      and_then (extract_rating_from_stars (str_of rating_text)) (\<lambda>r.
      let date_elem = el_select element ''[data-hook="review-date"]'' in
      and_then (if length date_elem > 0 then text_content date_elem
                else Inr (Some [])) (\<lambda>date_text.
      let d = clean_date (str_of date_text);
          content_elem = el_select element ''[data-hook="review-body"]'' in
      and_then (if length content_elem > 0 then text_content content_elem
                else Inr (Some [])) (\<lambda>content_text.
      let verified_elem = el_select element ''[data-hook="avp-badge"]'';
          verified = (length verified_elem > 0);
          helpful_elem = el_select element ''[data-hook="helpful-vote-statement"]'' in
      and_then (if length helpful_elem > 0 then text_content helpful_elem
                else Inr (Some [])) (\<lambda>helpful_text.
      and_then (extract_helpful_votes (str_of helpful_text)) (\<lambda>votes.
      and_then (strip_opt reviewer_text) (\<lambda>reviewer_name.
      and_then (strip_opt content_text) (\<lambda>body.
      Inr \<lparr>product_id = asin_id, product_title = title_text, reviewer = reviewer_name,
           rating = r, date = d, verified_purchase = verified, content = body,
           helpful_votes = votes\<rparr>))))))))))\<close>

text \<open>The loop over the review elements: an element whose extraction raises is logged and
  left out.\<close>

fun reviews_loop :: "string \<Rightarrow> string \<Rightarrow> element list \<Rightarrow> review list" where
  "reviews_loop asin_id title_text [] = []"
| "reviews_loop asin_id title_text (element # rest) =
     (case extract_review asin_id title_text element of
        Inr rv \<Rightarrow> rv # reviews_loop asin_id title_text rest
      | Inl e \<Rightarrow> reviews_loop asin_id title_text rest)"

definition login_redirect :: "page \<Rightarrow> bool" where
  "login_redirect p =
     (contains ''signin'' (lower (page_url p)) \<or> contains ''ap/signin'' (page_url p))"

definition extract_reviews_from_page :: "page \<Rightarrow> string \<Rightarrow> string \<Rightarrow> review list \<times> event list" where
  "extract_reviews_from_page p asin_id title_text =
     (if login_redirect p then ([], [Screenshot ''debug_login_redirect.png''])
      else (case fst (review_elements_loop p review_selectors) of
              [] \<Rightarrow> ([], [])
            | review_elements \<Rightarrow> (reviews_loop asin_id title_text review_elements, [])))"

definition review_url :: "string \<Rightarrow> string option \<Rightarrow> int \<Rightarrow> string" where
  "review_url asin_id star_filter page_num =
     ''https://www.amazon.com/product-reviews/'' @ asin_id @ ''/?pageNumber='' @ str_int page_num
       @ (if truthy star_filter then ''&filterByStar='' @ str_of star_filter else [])"

text \<open>The loop over \<open>range(1, max_pages + 1)\<close>.  A page that fails to load, or on which no
  selector finds a review, is the \<open>break\<close>.\<close>

fun pages_loop ::
  "site \<Rightarrow> string \<Rightarrow> string \<Rightarrow> string option \<Rightarrow> int list \<Rightarrow> review list \<times> event list" where
  "pages_loop site asin_id title_text star_filter [] = ([], [])"
| "pages_loop site asin_id title_text star_filter (page_num # rest) =
     (let u = review_url asin_id star_filter page_num in
      case site u of
        Inl e \<Rightarrow> ([], [Goto u])
      | Inr p \<Rightarrow>
          if \<not> fst (found_reviews_loop p found_selectors)
          then ([], [Goto u, Screenshot (''debug_reviews_page_'' @ str_int page_num @ ''.png'')])
          else (case extract_reviews_from_page p asin_id title_text of
                  (page_reviews, ev) \<Rightarrow>
                    (case pages_loop site asin_id title_text star_filter rest of
                       (reviews, evs) \<Rightarrow> (page_reviews @ reviews, Goto u # ev @ evs))))"

definition scrape_reviews ::
  "site \<Rightarrow> product \<Rightarrow> string option \<Rightarrow> int \<Rightarrow> review list \<times> event list" where
  "scrape_reviews site pr star_filter max_pages =
     pages_loop site (asin pr) (title pr) star_filter [1..max_pages]"

text \<open>The URLs requested in a run, in order.\<close>

fun requested :: "event list \<Rightarrow> string list" where
  "requested [] = []"
| "requested (Goto u # evs) = u # requested evs"
| "requested (Screenshot f # evs) = requested evs"
section \<open>Automated login: \<open>automated_login\<close> of \<open>cookie_extractor.py\<close>\<close>

text \<open>
  During the login the page changes with every click, so the browser is modelled by the
  calls made to it.  A call is an \<open>action\<close>; the history of a run is the list of the
  actions made so far, in order; and the browser answers each call as a function of the
  history: whether the call raises, and what \<open>is_visible\<close>, \<open>text_content\<close>,
  \<open>title\<close> and the \<open>url\<close> property give.  A target is \<open>page.locator(s)\<close> or
  \<open>page.locator(s).first\<close>.
\<close>

datatype target = Loc string | LocFirst string

datatype action =
    PageGoto string
  | PageWait nat
  | PageTitle
  | PageScreenshot
  | PageContent
  | IsVisible target
  | Click target
  | Clear target
  | Fill target string
  | TextContent target

record browser =
  raises :: "action list \<Rightarrow> action \<Rightarrow> bool"
  visible :: "action list \<Rightarrow> target \<Rightarrow> bool"
  text_of :: "action list \<Rightarrow> target \<Rightarrow> string option"
  title_of :: "action list \<Rightarrow> string"
  url_of :: "action list \<Rightarrow> string"

text \<open>A step of the function body yields \<open>Some v\<close> when the function has returned \<open>v\<close>, and
  \<open>None\<close> when control goes on to the next statement.  \<open>perform\<close> makes a call outside
  every inner \<open>try\<close>: if it raises, the outer \<open>except Exception\<close> returns \<open>False\<close>.\<close>

type_synonym step = "bool option \<times> action list"

definition perform :: "browser \<Rightarrow> action \<Rightarrow> (action list \<Rightarrow> step) \<Rightarrow> action list \<Rightarrow> step" where
  "perform b a k tr = (if raises b tr a then (Some False, tr @ [a]) else k (tr @ [a]))"

definition next_step :: "step \<Rightarrow> (action list \<Rightarrow> step) \<Rightarrow> step" where
  "next_step r k = (case r of (Some v, tr) \<Rightarrow> (Some v, tr) | (None, tr) \<Rightarrow> k tr)"

text \<open>\<open>debug_page_state\<close>: title, screenshot and page content, all inside one \<open>try\<close> whose
  handler only logs.\<close>

definition debug_page_state :: "browser \<Rightarrow> action list \<Rightarrow> action list" where
  "debug_page_state b tr =
     (if raises b tr PageTitle then tr @ [PageTitle]
      else if raises b (tr @ [PageTitle]) PageScreenshot then tr @ [PageTitle, PageScreenshot]
      else tr @ [PageTitle, PageScreenshot, PageContent])"

definition home_url :: string where
  "home_url = ''https://www.amazon.com''"

definition signin_url :: string where
  "signin_url = ''https://www.amazon.com/ap/signin?openid.pape.max_auth_age=0&openid.return_to=https%3A%2F%2Fwww.amazon.com%2F&openid.identity=http%3A%2F%2Fspecs.openid.net%2Fauth%2F2.0%2Fidentifier_select&openid.assoc_handle=usflex&openid.mode=checkid_setup&openid.claimed_id=http%3A%2F%2Fspecs.openid.net%2Fauth%2F2.0%2Fidentifier_select&openid.ns=http%3A%2F%2Fspecs.openid.net%2Fauth%2F2.0&''"

definition sign_in_selectors :: "string list" where
  "sign_in_selectors =
     [''#nav-link-accountList'', ''a[href*='signin']'', ''#nav-signin-tooltip a'',
      ''.nav-signin-tooltip a'']"

definition email_selectors :: "string list" where
  "email_selectors = [''#ap_email'', ''input[name='email']'', ''input[type='email']'', ''#ap_email_login'']"

definition continue_selectors :: "string list" where
  "continue_selectors = [''#continue'', ''input[id='continue']'', ''button[type='submit']'']"

definition password_selectors :: "string list" where
  "password_selectors = [''#ap_password'', ''input[name='password']'', ''input[type='password']'']"

definition signin_selectors :: "string list" where
  "signin_selectors =
     [''#signInSubmit'', ''input[id='signInSubmit']'', ''button[type='submit']'',
      ''#auth-signin-button'']"

definition captcha_selectors :: "string list" where
  "captcha_selectors =
     [''#auth-captcha-image'', ''[name='cvf_captcha_input']'', ''.cvf-captcha-img'',
      ''#captchacharacters'']"

definition twofa_selectors :: "string list" where
  "twofa_selectors =
     [''#auth-mfa-form'', ''[name='otpCode']'', ''#auth-mfa-otpcode'', ''.cvf-challenge-form'']"

definition error_selectors :: "string list" where
  "error_selectors = [''.a-alert-error'', ''#auth-error-message-box'', ''.auth-error-message'']"

definition account_selectors :: "string list" where
  "account_selectors =
     [''#nav-link-accountList-nav-line-1'', ''#nav-link-accountList span'', ''.nav-line-1'']"

text \<open>The loops that click the first visible candidate and wait (sign-in link, continue
  button, sign-in button).  Each iteration is a \<open>try\<close> with \<open>except: continue\<close>.\<close>

fun click_loop ::
  "browser \<Rightarrow> (string \<Rightarrow> target) \<Rightarrow> nat \<Rightarrow> string list \<Rightarrow> action list \<Rightarrow> bool \<times> action list" where
  "click_loop b mk ms [] tr = (False, tr)"
| "click_loop b mk ms (selector # rest) tr =
     (if raises b tr (IsVisible (mk selector))
      then click_loop b mk ms rest (tr @ [IsVisible (mk selector)])
      else if \<not> visible b tr (mk selector)
      then click_loop b mk ms rest (tr @ [IsVisible (mk selector)])
      else if raises b (tr @ [IsVisible (mk selector)]) (Click (mk selector))
      then click_loop b mk ms rest (tr @ [IsVisible (mk selector), Click (mk selector)])
      else if raises b (tr @ [IsVisible (mk selector), Click (mk selector)]) (PageWait ms)
      then click_loop b mk ms rest
             (tr @ [IsVisible (mk selector), Click (mk selector), PageWait ms])
      else (True, tr @ [IsVisible (mk selector), Click (mk selector), PageWait ms]))"

text \<open>The loops that clear and fill the first visible candidate (email, password).\<close>

fun fill_loop ::
  "browser \<Rightarrow> string \<Rightarrow> string list \<Rightarrow> action list \<Rightarrow> bool \<times> action list" where
  "fill_loop b v [] tr = (False, tr)"
| "fill_loop b v (selector # rest) tr =
     (if raises b tr (IsVisible (Loc selector))
      then fill_loop b v rest (tr @ [IsVisible (Loc selector)])
      else if \<not> visible b tr (Loc selector)
      then fill_loop b v rest (tr @ [IsVisible (Loc selector)])
      else if raises b (tr @ [IsVisible (Loc selector)]) (Clear (Loc selector))
      then fill_loop b v rest (tr @ [IsVisible (Loc selector), Clear (Loc selector)])
      else if raises b (tr @ [IsVisible (Loc selector), Clear (Loc selector)])
                (Fill (Loc selector) v)
      then fill_loop b v rest
             (tr @ [IsVisible (Loc selector), Clear (Loc selector), Fill (Loc selector) v])
      else (True, tr @ [IsVisible (Loc selector), Clear (Loc selector), Fill (Loc selector) v]))"

text \<open>The CAPTCHA loop and the 2FA loop: the first visible candidate returns \<open>False\<close>.
  These calls stand in no inner \<open>try\<close>.\<close>

fun challenge_loop :: "browser \<Rightarrow> string list \<Rightarrow> action list \<Rightarrow> step" where
  "challenge_loop b [] tr = (None, tr)"
| "challenge_loop b (selector # rest) tr =
     (if raises b tr (IsVisible (Loc selector)) then (Some False, tr @ [IsVisible (Loc selector)])
      else if visible b tr (Loc selector) then (Some False, tr @ [IsVisible (Loc selector)])
      else challenge_loop b rest (tr @ [IsVisible (Loc selector)]))"

text \<open>The loop over the error messages: the text of the first visible one is read for the
  log, then \<open>False\<close> is returned.\<close>

fun error_loop :: "browser \<Rightarrow> string list \<Rightarrow> action list \<Rightarrow> step" where
  "error_loop b [] tr = (None, tr)"
| "error_loop b (selector # rest) tr =
     (if raises b tr (IsVisible (Loc selector)) then (Some False, tr @ [IsVisible (Loc selector)])
      else if visible b tr (Loc selector)
      then (Some False, tr @ [IsVisible (Loc selector), TextContent (Loc selector)])
      else error_loop b rest (tr @ [IsVisible (Loc selector)]))"

text \<open>The loop over the account greeting: \<open>True\<close> on the first visible candidate whose text
  holds \<open>Hello\<close> or \<open>Hi\<close>.\<close>

fun account_loop :: "browser \<Rightarrow> string list \<Rightarrow> action list \<Rightarrow> bool \<times> action list" where
  "account_loop b [] tr = (False, tr)"
| "account_loop b (selector # rest) tr =
     (if raises b tr (IsVisible (Loc selector))
      then account_loop b rest (tr @ [IsVisible (Loc selector)])
      else if \<not> visible b tr (Loc selector)
      then account_loop b rest (tr @ [IsVisible (Loc selector)])
      else if raises b (tr @ [IsVisible (Loc selector)]) (TextContent (Loc selector))
      then account_loop b rest (tr @ [IsVisible (Loc selector), TextContent (Loc selector)])
      else
        (let account_text = text_of b (tr @ [IsVisible (Loc selector)]) (Loc selector) in
         if truthy account_text
            \<and> (contains ''Hello'' (str_of account_text) \<or> contains ''Hi'' (str_of account_text))
         then (True, tr @ [IsVisible (Loc selector), TextContent (Loc selector)])
         else account_loop b rest (tr @ [IsVisible (Loc selector), TextContent (Loc selector)])))"

text \<open>The statements up to and including the click on the sign-in button: \<open>None\<close> means
  that the credentials have been submitted.\<close>

definition open_home :: "browser \<Rightarrow> action list \<Rightarrow> step" where
  "open_home b =
     perform b (PageGoto home_url) (perform b (PageWait 3000) (\<lambda>tr.
       perform b PageTitle (\<lambda>tr'.
         let page_title = title_of b (debug_page_state b tr) in
         if contains ''sorry'' (lower page_title) \<or> contains ''error'' (lower page_title)
         then (Some False, debug_page_state b tr')
         else (None, tr')) (debug_page_state b tr)))"

definition open_sign_in :: "browser \<Rightarrow> action list \<Rightarrow> step" where
  "open_sign_in b tr =
     next_step
       (case click_loop b LocFirst 3000 sign_in_selectors tr of
          (True, tr1) \<Rightarrow> (None, tr1)
        | (False, tr1) \<Rightarrow>
            perform b (PageGoto signin_url) (perform b (PageWait 3000) (\<lambda>tr2.
              (None, debug_page_state b tr2))) tr1)
       (\<lambda>tr3.
          let current_url = url_of b tr3 in
          if \<not> contains ''signin'' current_url \<and> \<not> contains ''ap/'' current_url
          then (Some False, debug_page_state b tr3)
          else (None, tr3))"

definition enter_email :: "browser \<Rightarrow> string \<Rightarrow> action list \<Rightarrow> step" where
  "enter_email b email tr =
     (case fill_loop b email email_selectors tr of
        (True, tr1) \<Rightarrow> (None, tr1)
      | (False, tr1) \<Rightarrow> (Some False, debug_page_state b tr1))"

definition click_continue :: "browser \<Rightarrow> action list \<Rightarrow> step" where
  "click_continue b tr =
     (case click_loop b Loc 3000 continue_selectors tr of
        (True, tr1) \<Rightarrow> (None, tr1)
      | (False, tr1) \<Rightarrow> (Some False, tr1))"

definition enter_password :: "browser \<Rightarrow> string \<Rightarrow> action list \<Rightarrow> step" where
  "enter_password b password =
     perform b (PageWait 2000) (\<lambda>tr.
       case fill_loop b password password_selectors tr of
         (True, tr1) \<Rightarrow> (None, tr1)
       | (False, tr1) \<Rightarrow> (Some False, tr1))"

definition click_sign_in :: "browser \<Rightarrow> action list \<Rightarrow> step" where
  "click_sign_in b tr =
     (case click_loop b Loc 5000 signin_selectors tr of
        (True, tr1) \<Rightarrow> (None, tr1)
      | (False, tr1) \<Rightarrow> (Some False, tr1))"

definition submit_credentials :: "browser \<Rightarrow> string \<Rightarrow> string \<Rightarrow> step" where
  "submit_credentials b email password =
     next_step (next_step (next_step (next_step (next_step (open_home b [])
       (open_sign_in b)) (enter_email b email)) (click_continue b))
       (enter_password b password)) (click_sign_in b)"

text \<open>The checks after the submission: CAPTCHA, then 2FA, then error messages.\<close>

definition challenge_check :: "browser \<Rightarrow> action list \<Rightarrow> step" where
  "challenge_check b =
     perform b (PageWait 3000) (\<lambda>tr.
       next_step (next_step (challenge_loop b captcha_selectors tr)
         (challenge_loop b twofa_selectors)) (error_loop b error_selectors))"

definition verify_login :: "browser \<Rightarrow> action list \<Rightarrow> step" where
  "verify_login b =
     perform b (PageWait 3000) (perform b (PageGoto home_url) (perform b (PageWait 3000) (\<lambda>tr.
       case account_loop b account_selectors tr of (v, tr1) \<Rightarrow> (Some v, tr1))))"

definition automated_login :: "browser \<Rightarrow> string \<Rightarrow> string \<Rightarrow> bool \<times> action list" where
  "automated_login b email password =
     (case next_step (next_step (submit_credentials b email password) (challenge_check b))
             (verify_login b) of
        (Some v, tr) \<Rightarrow> (v, tr)
      | (None, tr) \<Rightarrow> (False, tr))"
section \<open>Auxiliary notions for the proofs\<close>

text \<open>A pattern without group markers, the spelling of a decimal number as the number
  group captures it, and the inputs on which a greedy repetition has to stop.\<close>

fun no_groups :: "item list \<Rightarrow> bool" where
  "no_groups [] = True"
| "no_groups (Ch c q # r) = no_groups r"
| "no_groups (_ # r) = False"

definition decimal :: "string \<Rightarrow> bool" where
  "decimal t =
     (let ip = takeWhile is_digit t; rest = dropWhile is_digit t in
      ip \<noteq> [] \<and> (case rest of [] \<Rightarrow> True | c # fp \<Rightarrow> c = CHR ''.'' \<and> list_all is_digit fp))"

definition stops :: "cls \<Rightarrow> string \<Rightarrow> bool" where
  "stops c ys = (case ys of [] \<Rightarrow> True | y # _ \<Rightarrow> \<not> accepts c y)"

text \<open>The first element of a list with a property sits at index \<open>i\<close>.\<close>

definition first_match_at :: "('a \<Rightarrow> bool) \<Rightarrow> 'a list \<Rightarrow> nat \<Rightarrow> bool" where
  "first_match_at P xs i = (i < length xs \<and> P (xs ! i) \<and> list_all (\<lambda>x. \<not> P x) (take i xs))"


text \<open>The helpful-votes text does not make \<open>int\<close> raise: the number in front of ``people
  found'', when there is one, has at most 4300 digits.\<close>

definition votes_in_range :: "string \<Rightarrow> bool" where
  "votes_in_range s =
     (case search_group1 helpful_re s of None \<Rightarrow> True | Some g \<Rightarrow> length g \<le> max_str_digits)"

text \<open>The text that a field of an element resolves to when its selector matches at most one
  element: the default on no match, the text of the match otherwise.\<close>

definition field_text :: "element \<Rightarrow> string \<Rightarrow> string \<Rightarrow> string option" where
  "field_text e sel d = (case el_select e sel of [] \<Rightarrow> Some d | x # xs \<Rightarrow> el_text x)"

definition single :: "element \<Rightarrow> string \<Rightarrow> bool" where
  "single e sel = (length (el_select e sel) \<le> 1)"

section \<open>Example pages\<close>

definition leaf :: "string \<Rightarrow> element" where
  "leaf t = Element (\<lambda>_. None) (Some t) (\<lambda>_. [])"

definition bare_review :: element where
  "bare_review = Element (\<lambda>_. None) (Some []) (\<lambda>_. [])"

text \<open>A page on which the first and the third candidate match, with different elements.\<close>

definition two_match_page :: page where
  "two_match_page =
     \<lparr>page_url = ''https://www.amazon.com/x'',
      page_select = (\<lambda>s. if s = ''c1'' then [leaf ''one''] else if s = ''c3'' then [leaf ''three''] else [])\<rparr>"

definition two_match_card :: element where
  "two_match_card =
     Element (\<lambda>_. None) None
       (\<lambda>s. if s = ''c1'' then [leaf ''one''] else if s = ''c3'' then [leaf ''three''] else [])"

text \<open>A product whose first review page has three review elements and whose second page
  has none.\<close>

definition page_with_reviews :: "string \<Rightarrow> nat \<Rightarrow> page" where
  \<open>page_with_reviews u k =
     \<lparr>page_url = u,
      page_select = (\<lambda>s. if s = ''[data-hook="review"]'' then replicate k bare_review else [])\<rparr>\<close>

definition demo_product :: product where
  "demo_product =
     \<lparr>asin = ''B01'', title = ''Bag'', link = None, price = None, product_rating = 0, position = 1\<rparr>"

definition demo_pages :: "int \<Rightarrow> page" where
  "demo_pages n = page_with_reviews (review_url ''B01'' None n) (if n = 1 then 3 else 0)"

definition demo_site :: site where
  "demo_site u =
     (if u = review_url ''B01'' None 1 then Inr (demo_pages 1)
      else if u = review_url ''B01'' None 2 then Inr (demo_pages 2)
      else Inl TimeoutError)"

definition anonymous_review :: review where
  "anonymous_review =
     \<lparr>product_id = ''B01'', product_title = ''Bag'', reviewer = ''Anonymous'', rating = 0,
      date = [], verified_purchase = False, content = [], helpful_votes = 0\<rparr>"

text \<open>A product whose first review page has three review elements and whose second page
  is the sign-in page that an expired session is redirected to: it shows no reviews.\<close>

definition signin_page :: page where
  "signin_page =
     \<lparr>page_url = ''https://www.amazon.com/ap/signin?openid.return_to=reviews'',
      page_select = (\<lambda>_. [])\<rparr>"

definition stale_site :: site where
  "stale_site u =
     (if u = review_url ''B01'' None 1 then Inr (demo_pages 1)
      else if u = review_url ''B01'' None 2 then Inr signin_page
      else Inl TimeoutError)"





text \<open>A review element all of whose fields can be read without an exception: every field
  selector matches at most one element, a matched reviewer or content element has a text,
  and the helpful-votes number is not too long for \<open>int\<close>.\<close>

definition review_readable :: "element \<Rightarrow> bool" where
  \<open>review_readable e =
     (single e ''.a-profile-name''
      \<and> single e ''[data-hook="review-star-rating"], [data-hook="cmps-review-star-rating"]''
      \<and> single e ''[data-hook="review-date"]''
      \<and> single e ''[data-hook="review-body"]''
      \<and> single e ''[data-hook="helpful-vote-statement"]''
      \<and> field_text e ''.a-profile-name'' ''Anonymous'' \<noteq> None
      \<and> field_text e ''[data-hook="review-body"]'' [] \<noteq> None
      \<and> votes_in_range (str_of (field_text e ''[data-hook="helpful-vote-statement"]'' [])))\<close>

text \<open>Review elements that the harvester drops: two reviewer names, a reviewer element
  without text, and a helpful-votes statement with a number of 4301 digits.\<close>

definition two_names :: element where
  "two_names =
     Element (\<lambda>_. None) (Some [])
       (\<lambda>s. if s = ''.a-profile-name'' then [leaf ''Ann'', leaf ''Ann''] else [])"

definition no_text_name :: element where
  "no_text_name =
     Element (\<lambda>_. None) (Some [])
       (\<lambda>s. if s = ''.a-profile-name'' then [Element (\<lambda>_. None) None (\<lambda>_. [])] else [])"

definition long_digits :: string where
  "long_digits = replicate 4301 (CHR ''1'')"

definition long_votes :: element where
  \<open>long_votes =
     Element (\<lambda>_. None) (Some [])
       (\<lambda>s. if s = ''[data-hook="helpful-vote-statement"]''
            then [leaf (long_digits @ '' people found this helpful'')] else [])\<close>

text \<open>A review element whose rating text is \<open>9 stars\<close>.\<close>

definition nine_star_review :: element where
  \<open>nine_star_review =
     Element (\<lambda>_. None) (Some [])
       (\<lambda>s. if s = ''[data-hook="review-star-rating"], [data-hook="cmps-review-star-rating"]''
            then [leaf ''9 stars''] else [])\<close>

text \<open>The bounds that hold for every review.\<close>

definition nonnegative :: "review \<Rightarrow> bool" where
  "nonnegative r = (0 \<le> rating r \<and> 0 \<le> helpful_votes r)"

section \<open>Notions for the claims about the login\<close>

text \<open>The candidates of a challenge loop are inspected one after the other and none is
  visible (\<open>quiet\<close>); the first visible one is at index \<open>i\<close> (\<open>first_visible\<close>).  Both follow
  the history as the loop extends it, and neither lets an inspection raise.\<close>

fun quiet :: "browser \<Rightarrow> action list \<Rightarrow> string list \<Rightarrow> bool" where
  "quiet b tr [] = True"
| "quiet b tr (s # rest) =
     (\<not> raises b tr (IsVisible (Loc s)) \<and> \<not> visible b tr (Loc s)
      \<and> quiet b (tr @ [IsVisible (Loc s)]) rest)"

fun first_visible :: "browser \<Rightarrow> action list \<Rightarrow> string list \<Rightarrow> nat \<Rightarrow> bool" where
  "first_visible b tr [] i = False"
| "first_visible b tr (s # rest) i =
     (\<not> raises b tr (IsVisible (Loc s))
      \<and> (if i = 0 then visible b tr (Loc s)
          else \<not> visible b tr (Loc s) \<and> first_visible b (tr @ [IsVisible (Loc s)]) rest (i - 1)))"

definition inspections :: "string list \<Rightarrow> action list" where
  "inspections sels = map (\<lambda>s. IsVisible (Loc s)) sels"

text \<open>The element that an action works on, when it clicks, clears, fills or reads one; and
  the actions that leave the CAPTCHA and 2FA candidates alone.\<close>

fun touched :: "action \<Rightarrow> string option" where
  "touched (Click (Loc s)) = Some s"
| "touched (Click (LocFirst s)) = Some s"
| "touched (Clear (Loc s)) = Some s"
| "touched (Clear (LocFirst s)) = Some s"
| "touched (Fill (Loc s) v) = Some s"
| "touched (Fill (LocFirst s) v) = Some s"
| "touched (TextContent (Loc s)) = Some s"
| "touched (TextContent (LocFirst s)) = Some s"
| "touched _ = None"

definition safe :: "action \<Rightarrow> bool" where
  "safe a =
     (case touched a of None \<Rightarrow> True
      | Some s \<Rightarrow> s \<notin> set (captcha_selectors @ twofa_selectors))"

text \<open>A browser that never raises, shows the first candidate of each form field and, after
  the submission, the first CAPTCHA candidate.\<close>

definition demo_browser :: browser where
  "demo_browser =
     \<lparr>raises = (\<lambda>_ _. False),
      visible = (\<lambda>_ t. t \<in> set [Loc ''#ap_email'', Loc ''#continue'', Loc ''#ap_password'',
                   Loc ''#signInSubmit'', Loc ''#auth-captcha-image'']),
      text_of = (\<lambda>_ _. None),
      title_of = (\<lambda>_. ''Amazon.com''),
      url_of = (\<lambda>_. ''https://www.amazon.com/ap/signin'')\<rparr>"

text \<open>The calls of a run on that browser up to the click on the sign-in button.\<close>

definition demo_submitted :: "action list" where
  "demo_submitted =
     [PageGoto home_url, PageWait 3000, PageTitle, PageScreenshot, PageContent, PageTitle,
      IsVisible (LocFirst ''#nav-link-accountList''), IsVisible (LocFirst ''a[href*='signin']''),
      IsVisible (LocFirst ''#nav-signin-tooltip a''), IsVisible (LocFirst ''.nav-signin-tooltip a''),
      PageGoto signin_url, PageWait 3000, PageTitle, PageScreenshot, PageContent,
      IsVisible (Loc ''#ap_email''), Clear (Loc ''#ap_email''), Fill (Loc ''#ap_email'') ''me@example.org'',
      IsVisible (Loc ''#continue''), Click (Loc ''#continue''), PageWait 3000,
      PageWait 2000,
      IsVisible (Loc ''#ap_password''), Clear (Loc ''#ap_password''), Fill (Loc ''#ap_password'') ''secret'',
      IsVisible (Loc ''#signInSubmit''), Click (Loc ''#signInSubmit''), PageWait 5000]"
section \<open>Properties of the matcher\<close>

lemma star_consumes:
  "match_here (Ch c Star # r) g s = Some m \<Longrightarrow>
   \<exists>xs ys. s = xs @ ys \<and> list_all (accepts c) xs \<and> match_here r g ys = Some m"
proof (induction s)
  case Nil
  then show ?case by simp
next
  case (Cons x s)
  show ?case
  proof (cases "accepts c x \<and> match_here (Ch c Star # r) g s \<noteq> None")
    case True
    then have "match_here (Ch c Star # r) g s = Some m"
      using Cons.prems by (auto split: option.splits)
    then obtain xs ys where "s = xs @ ys" "list_all (accepts c) xs" "match_here r g ys = Some m"
      using Cons.IH by blast
    then have "x # s = (x # xs) @ ys \<and> list_all (accepts c) (x # xs) \<and> match_here r g ys = Some m"
      using True by simp
    then show ?thesis by blast
  next
    case False
    then have "match_here r g (x # s) = Some m"
      using Cons.prems by (auto split: option.splits if_splits)
    then have "x # s = [] @ (x # s) \<and> list_all (accepts c) [] \<and> match_here r g (x # s) = Some m"
      by simp
    then show ?thesis by blast
  qed
qed

lemma plus_consumes:
  assumes "match_here (Ch c Plus # r) g s = Some m"
  shows "\<exists>xs ys. s = xs @ ys \<and> xs \<noteq> [] \<and> list_all (accepts c) xs \<and> match_here r g ys = Some m"
proof (cases s)
  case Nil
  then show ?thesis using assms by simp
next
  case (Cons x t)
  then have a: "accepts c x" and "match_here (Ch c Star # r) g t = Some m"
    using assms by (auto split: if_splits)
  then obtain xs ys where "t = xs @ ys" "list_all (accepts c) xs" "match_here r g ys = Some m"
    using star_consumes by blast
  then have "s = (x # xs) @ ys \<and> x # xs \<noteq> [] \<and> list_all (accepts c) (x # xs) \<and> match_here r g ys = Some m"
    using Cons a by simp
  then show ?thesis by blast
qed

lemma opt_consumes:
  assumes "match_here (Ch c Opt # r) g s = Some m"
  shows "match_here r g s = Some m \<or> (\<exists>x ys. s = x # ys \<and> accepts c x \<and> match_here r g ys = Some m)"
  using assms by (cases s) (auto split: if_splits option.splits)

lemma once_consumes:
  assumes "match_here (Ch c Once # r) g s = Some m"
  shows "\<exists>x ys. s = x # ys \<and> accepts c x \<and> match_here r g ys = Some m"
  using assms by (cases s) (auto split: if_splits)

lemma lazy_consumes:
  "match_here (Ch c LazyStar # r) g s = Some m \<Longrightarrow>
   \<exists>xs ys. s = xs @ ys \<and> list_all (accepts c) xs \<and> match_here r g ys = Some m"
proof (induction s)
  case Nil
  then show ?case by (auto split: option.splits)
next
  case (Cons x s)
  show ?case
  proof (cases "match_here r g (x # s)")
    case (Some m')
    then have "match_here r g (x # s) = Some m" using Cons.prems by simp
    then have "x # s = [] @ (x # s) \<and> list_all (accepts c) [] \<and> match_here r g (x # s) = Some m"
      by simp
    then show ?thesis by blast
  next
    case None
    then have a: "accepts c x" and "match_here (Ch c LazyStar # r) g s = Some m"
      using Cons.prems by (auto split: if_splits)
    then obtain xs ys where "s = xs @ ys" "list_all (accepts c) xs" "match_here r g ys = Some m"
      using Cons.IH by blast
    then have "x # s = (x # xs) @ ys \<and> list_all (accepts c) (x # xs) \<and> match_here r g ys = Some m"
      using a by simp
    then show ?thesis by blast
  qed
qed



lemma accepts_Digit [simp]: "accepts Digit = is_digit"
  by (rule ext) simp

lemma accepts_Space [simp]: "accepts Space = is_space"
  by (rule ext) simp

lemma ch_consumes:
  assumes "match_here (Ch c q # r) g s = Some m"
  shows "\<exists>xs ys. s = xs @ ys \<and> list_all (accepts c) xs \<and> match_here r g ys = Some m"
proof (cases q)
  case Once
  then obtain x ys where "s = x # ys" "accepts c x" "match_here r g ys = Some m"
    using assms once_consumes by blast
  then have "s = [x] @ ys \<and> list_all (accepts c) [x] \<and> match_here r g ys = Some m" by simp
  then show ?thesis by blast
next
  case Opt
  then consider "match_here r g s = Some m"
    | x ys where "s = x # ys" "accepts c x" "match_here r g ys = Some m"
    using assms opt_consumes by blast
  then show ?thesis
  proof cases
    case 1
    then have "s = [] @ s \<and> list_all (accepts c) [] \<and> match_here r g s = Some m" by simp
    then show ?thesis by blast
  next
    case 2
    then have "s = [x] @ ys \<and> list_all (accepts c) [x] \<and> match_here r g ys = Some m" by simp
    then show ?thesis by blast
  qed
next
  case Star
  then show ?thesis using assms star_consumes by blast
next
  case Plus
  then show ?thesis using assms plus_consumes by blast
next
  case LazyStar
  then show ?thesis using assms lazy_consumes by blast
qed

lemma no_groups_capture:
  "no_groups r \<Longrightarrow> match_here r g s = Some (g', e) \<Longrightarrow> g' = g"
proof (induction r arbitrary: s)
  case Nil
  then show ?case by simp
next
  case (Cons a r)
  show ?case
  proof (cases a)
    case (Ch c q)
    then have m: "match_here (Ch c q # r) g s = Some (g', e)"
      using Cons.prems(2) by simp
    obtain ys where "match_here r g ys = Some (g', e)"
      using ch_consumes [OF m] by blast
    moreover have "no_groups r" using Cons.prems(1) Ch by simp
    ultimately show ?thesis using Cons.IH by blast
  next
    case GroupOpen
    then show ?thesis using Cons.prems(1) by simp
  next
    case GroupClose
    then show ?thesis using Cons.prems(1) by simp
  qed
qed

lemma decimal_shape:
  "decimal t = (\<exists>d1 fr. t = d1 @ fr \<and> d1 \<noteq> [] \<and> list_all is_digit d1 \<and>
      (fr = [] \<or> (\<exists>d2. fr = CHR ''.'' # d2 \<and> list_all is_digit d2)))"
proof
  assume d: "decimal t"
  let ?ip = "takeWhile is_digit t" and ?rest = "dropWhile is_digit t"
  have "t = ?ip @ ?rest" by simp
  moreover have "?ip \<noteq> []" using d by (simp add: decimal_def Let_def)
  moreover have "list_all is_digit ?ip"
    by (simp add: list_all_iff) (meson set_takeWhileD)
  moreover have "?rest = [] \<or> (\<exists>d2. ?rest = CHR ''.'' # d2 \<and> list_all is_digit d2)"
    using d by (cases ?rest) (simp_all add: decimal_def Let_def)
  ultimately show "\<exists>d1 fr. t = d1 @ fr \<and> d1 \<noteq> [] \<and> list_all is_digit d1 \<and>
      (fr = [] \<or> (\<exists>d2. fr = CHR ''.'' # d2 \<and> list_all is_digit d2))"
    by blast
next
  assume "\<exists>d1 fr. t = d1 @ fr \<and> d1 \<noteq> [] \<and> list_all is_digit d1 \<and>
      (fr = [] \<or> (\<exists>d2. fr = CHR ''.'' # d2 \<and> list_all is_digit d2))"
  then obtain d1 fr where t: "t = d1 @ fr" and d1: "d1 \<noteq> []" "list_all is_digit d1"
    and fr: "fr = [] \<or> (\<exists>d2. fr = CHR ''.'' # d2 \<and> list_all is_digit d2)"
    by blast
  from fr show "decimal t"
  proof
    assume "fr = []"
    then have tw: "takeWhile is_digit t = d1" and dw: "dropWhile is_digit t = []"
      using t d1 by (auto simp: list_all_iff)
    show ?thesis unfolding decimal_def Let_def tw dw using d1 by simp
  next
    assume "\<exists>d2. fr = CHR ''.'' # d2 \<and> list_all is_digit d2"
    then obtain d2 where f: "fr = CHR ''.'' # d2" and d2: "list_all is_digit d2" by blast
    have nd: "\<not> is_digit CHR ''.''" by (simp add: is_digit_def)
    have tw: "takeWhile is_digit t = d1" and dw: "dropWhile is_digit t = CHR ''.'' # d2"
      using t d1 f nd by (auto simp: list_all_iff takeWhile_append2 dropWhile_append2)
    show ?thesis unfolding decimal_def Let_def tw dw using d1 d2 by simp
  qed
qed

lemma number_group_shape:
  assumes m: "match_here (number_group @ r) g s = Some (g', e)" and r: "no_groups r"
  shows "\<exists>t. g' = Captured t \<and> decimal t"
proof -
  have 1: "match_here (Ch Digit Plus # Ch (Lit CHR ''.'') Opt # Ch Digit Star # GroupClose # r)
             (OpenAt s) s = Some (g', e)"
    using m by (simp add: number_group_def)
  obtain d1 s1 where s: "s = d1 @ s1" and d1: "d1 \<noteq> []" "list_all (accepts Digit) d1"
    and 2: "match_here (Ch (Lit CHR ''.'') Opt # Ch Digit Star # GroupClose # r) (OpenAt s) s1
             = Some (g', e)"
    using plus_consumes [OF 1] by blast
  obtain fr s2 where s1: "s1 = fr @ s2" and fr: "fr = [] \<or> fr = [CHR ''.'']"
    and 3: "match_here (Ch Digit Star # GroupClose # r) (OpenAt s) s2 = Some (g', e)"
  proof -
    from opt_consumes [OF 2] consider
        "match_here (Ch Digit Star # GroupClose # r) (OpenAt s) s1 = Some (g', e)"
      | x ys where "s1 = x # ys" "accepts (Lit CHR ''.'') x"
          "match_here (Ch Digit Star # GroupClose # r) (OpenAt s) ys = Some (g', e)"
      by blast
    then show ?thesis
    proof cases
      case 1
      then show ?thesis using that [of "[]" s1] by simp
    next
      case 2
      then show ?thesis using that [of "[CHR ''.'']" ys] by simp
    qed
  qed
  obtain d2 s3 where s2: "s2 = d2 @ s3" and d2: "list_all (accepts Digit) d2"
    and 4: "match_here (GroupClose # r) (OpenAt s) s3 = Some (g', e)"
    using star_consumes [OF 3] by blast
  have "match_here r (Captured (take (length s - length s3) s)) s3 = Some (g', e)"
    using 4 by simp
  then have "g' = Captured (take (length s - length s3) s)"
    using no_groups_capture [OF r] by blast
  moreover have "take (length s - length s3) s = d1 @ fr @ d2"
    using s s1 s2 by simp
  moreover have "decimal (d1 @ fr @ d2)"
  proof (cases "fr = []")
    case True
    show ?thesis unfolding decimal_shape using True d1 d2
      by (intro exI [of _ "d1 @ d2"] exI [of _ "[]"]) simp
  next
    case False
    then have "d1 @ fr @ d2 = d1 @ (CHR ''.'' # d2) \<and> d1 \<noteq> [] \<and> list_all is_digit d1
        \<and> list_all is_digit d2"
      using d1 d2 fr by simp
    then show ?thesis unfolding decimal_shape by blast
  qed
  ultimately show ?thesis by simp
qed

lemma search_some:
  "search p s = Some m \<Longrightarrow> \<exists>t. match_here p NoGroup t = Some m"
  by (induction s) (auto split: option.splits)

lemma digit_not_dot: "is_digit c \<Longrightarrow> c \<noteq> CHR ''.''"
  by (auto simp: is_digit_def)

lemma py_float_decimal:
  assumes "decimal t"
  shows "\<exists>v. py_float t = Inr v \<and> 0 \<le> v"
proof -
  obtain d1 fr where t: "t = d1 @ fr" and d1: "d1 \<noteq> []" "list_all is_digit d1"
    and fr: "fr = [] \<or> (\<exists>d2. fr = CHR ''.'' # d2 \<and> list_all is_digit d2)"
    using assms unfolding decimal_shape by blast
  from fr show ?thesis
  proof
    assume "fr = []"
    then have tw: "takeWhile is_digit t = d1" and dw: "dropWhile is_digit t = []"
      using t d1 by (auto simp: list_all_iff)
    have "py_float t = Inr (real (digits_val d1))"
      unfolding py_float_def Let_def tw dw using d1 by simp
    then show ?thesis by simp
  next
    assume "\<exists>d2. fr = CHR ''.'' # d2 \<and> list_all is_digit d2"
    then obtain d2 where f: "fr = CHR ''.'' # d2" and d2: "list_all is_digit d2" by blast
    have nd: "\<not> is_digit CHR ''.''" by (simp add: is_digit_def)
    have tw: "takeWhile is_digit t = d1" and dw: "dropWhile is_digit t = CHR ''.'' # d2"
      using t d1 f nd by (auto simp: list_all_iff takeWhile_append2 dropWhile_append2)
    have "py_float t = Inr (real (digits_val d1) + real (digits_val d2) / 10 ^ length d2)"
      unfolding py_float_def Let_def tw dw using d1 d2 by simp
    then show ?thesis by simp
  qed
qed


lemma py_int_digits:
  "d \<noteq> [] \<Longrightarrow> list_all is_digit d \<Longrightarrow>
   py_int d = (if length d \<le> max_str_digits then Inr (int (digits_val d)) else Inl ValueError)"
  by (simp add: py_int_def)

lemma digit_group_shape:
  assumes m: "match_here (GroupOpen # Ch Digit Plus # GroupClose # r) g s = Some (g', e)"
    and r: "no_groups r"
  shows "\<exists>d. g' = Captured d \<and> d \<noteq> [] \<and> list_all is_digit d"
proof -
  have 1: "match_here (Ch Digit Plus # GroupClose # r) (OpenAt s) s = Some (g', e)"
    using m by simp
  obtain d s1 where s: "s = d @ s1" and d: "d \<noteq> []" "list_all (accepts Digit) d"
    and 2: "match_here (GroupClose # r) (OpenAt s) s1 = Some (g', e)"
    using plus_consumes [OF 1] by blast
  have "match_here r (Captured (take (length s - length s1) s)) s1 = Some (g', e)"
    using 2 by simp
  then have "g' = Captured (take (length s - length s1) s)"
    using no_groups_capture [OF r] by blast
  then show ?thesis using s d by simp
qed

lemma no_groups_lits [simp]: "no_groups (lits t @ r) = no_groups r"
  by (induction t) (simp_all add: lits_def)

lemma search_group1_number:
  assumes "search_group1 (number_group @ r) s = Some t" and "no_groups r"
  shows "decimal t"
proof -
  obtain e where "search (number_group @ r) s = Some (Captured t, e)"
    using assms(1) by (auto simp: search_group1_def split: option.splits capture.splits)
  then obtain u where "match_here (number_group @ r) NoGroup u = Some (Captured t, e)"
    using search_some by blast
  then show ?thesis using number_group_shape [OF _ assms(2)] by blast
qed

lemma extract_rating_from_stars_total:
  "\<exists>v. extract_rating_from_stars s = Inr v \<and> 0 \<le> v"
proof -
  have a: "search_group1 out_of_5_re s = Some t \<Longrightarrow> decimal t" for t
    using search_group1_number
      [of "[Ch Space Plus] @ lits ''out of'' @ [Ch Space Plus, Ch (Lit CHR ''5'') Once]" s t]
    by (simp add: out_of_5_re_def lits_def)
  have b: "search_group1 stars_re s = Some t \<Longrightarrow> decimal t" for t
    using search_group1_number
      [of "[Ch Space Plus] @ lits ''star'' @ [Ch (Lit CHR ''s'') Opt]" s t]
    by (simp add: stars_re_def lits_def)
  show ?thesis
    unfolding extract_rating_from_stars_def
    using a b py_float_decimal by (auto split: option.splits)
qed

lemma extract_rating_total:
  "\<exists>v. extract_rating s = Inr v \<and> 0 \<le> v"
proof -
  have a: "search_group1 out_of_re s = Some t \<Longrightarrow> decimal t" for t
    using search_group1_number [of "[Ch Space Plus] @ lits ''out of''" s t]
    by (simp add: out_of_re_def lits_def)
  show ?thesis
    unfolding extract_rating_def
    using a py_float_decimal by (auto split: option.splits)
qed

lemma helpful_group_digits:
  assumes h: "search_group1 helpful_re s = Some t"
  shows "t \<noteq> [] \<and> list_all is_digit t"
proof -
  obtain e where "search helpful_re s = Some (Captured t, e)"
    using h by (auto simp: search_group1_def split: option.splits capture.splits)
  then obtain u where m: "match_here helpful_re NoGroup u = Some (Captured t, e)"
    using search_some by blast
  have eq: "helpful_re = GroupOpen # Ch Digit Plus # GroupClose # tl (tl (tl helpful_re))"
    by (simp add: helpful_re_def)
  have ng: "no_groups (tl (tl (tl helpful_re)))"
    by (simp add: helpful_re_def lits_def)
  have "match_here (GroupOpen # Ch Digit Plus # GroupClose # tl (tl (tl helpful_re))) NoGroup u
      = Some (Captured t, e)"
    by (subst eq [symmetric]) (rule m)
  from digit_group_shape [OF this ng] show ?thesis by simp
qed

lemma helpful_no_match_empty: "search_group1 helpful_re [] = None"
  by (simp add: search_group1_def helpful_re_def lits_def)

lemma extract_helpful_votes_in_range:
  assumes "votes_in_range s"
  shows "\<exists>v. extract_helpful_votes s = Inr v \<and> 0 \<le> v"
proof (cases "search_group1 helpful_re s")
  case None
  then show ?thesis by (simp add: extract_helpful_votes_def)
next
  case (Some t)
  then have "t \<noteq> []" "list_all is_digit t" using helpful_group_digits by blast+
  moreover have "length t \<le> max_str_digits"
    using assms Some by (simp add: votes_in_range_def)
  ultimately have "py_int t = Inr (int (digits_val t))"
    by (simp add: py_int_digits)
  then show ?thesis using Some by (simp add: extract_helpful_votes_def)
qed

lemma extract_helpful_votes_out_of_range:
  assumes "\<not> votes_in_range s"
  shows "extract_helpful_votes s = Inl ValueError"
proof -
  obtain t where t: "search_group1 helpful_re s = Some t" "\<not> length t \<le> max_str_digits"
    using assms by (auto simp: votes_in_range_def split: option.splits)
  then have "t \<noteq> []" "list_all is_digit t" using helpful_group_digits by blast+
  then have "py_int t = Inl ValueError" using t(2) by (simp add: py_int_digits)
  moreover have "s \<noteq> []" using t(1) helpful_no_match_empty by auto
  ultimately show ?thesis using t(1) by (simp add: extract_helpful_votes_def)
qed

lemma extract_helpful_votes_value:
  assumes "extract_helpful_votes s = Inr v"
  shows "0 \<le> v \<and> votes_in_range s"
proof (cases "votes_in_range s")
  case True
  then show ?thesis using assms extract_helpful_votes_in_range [of s] by auto
next
  case False
  then show ?thesis using assms extract_helpful_votes_out_of_range [of s] by simp
qed

lemma star_greedy:
  "list_all (accepts c) xs \<Longrightarrow> stops c ys \<Longrightarrow> match_here r g ys = Some m \<Longrightarrow>
   match_here (Ch c Star # r) g (xs @ ys) = Some m"
proof (induction xs)
  case Nil
  then show ?case by (cases ys) (simp_all add: stops_def)
next
  case (Cons x xs)
  then show ?case by simp
qed

lemma plus_greedy:
  "xs \<noteq> [] \<Longrightarrow> list_all (accepts c) xs \<Longrightarrow> stops c ys \<Longrightarrow> match_here r g ys = Some m \<Longrightarrow>
   match_here (Ch c Plus # r) g (xs @ ys) = Some m"
  using star_greedy [of c "tl xs" ys r g m] by (cases xs) simp_all


lemma opt_take:
  "accepts c x \<Longrightarrow> match_here r g ys = Some m \<Longrightarrow> match_here (Ch c Opt # r) g (x # ys) = Some m"
  by simp

lemma lits_match: "match_here (lits t @ r) g (t @ s) = match_here r g s"
  by (induction t) (simp_all add: lits_def)


lemma search_at_start:
  "match_here p NoGroup s = Some m \<Longrightarrow> search p s = Some m"
  by (cases s) simp_all


lemma match_here_suffix:
  "match_here p g s = Some (g', e) \<Longrightarrow> \<exists>xs. s = xs @ e"
proof (induction p arbitrary: g s)
  case Nil
  then show ?case by simp
next
  case (Cons a p)
  show ?case
  proof (cases a)
    case (Ch c q)
    then have m: "match_here (Ch c q # p) g s = Some (g', e)"
      using Cons.prems by simp
    obtain xs ys where xy: "s = xs @ ys" "match_here p g ys = Some (g', e)"
      using ch_consumes [OF m] by blast
    obtain zs where "ys = zs @ e" using Cons.IH [OF xy(2)] by blast
    then have "s = (xs @ zs) @ e" using xy(1) by simp
    then show ?thesis by blast
  next
    case GroupOpen
    then have "match_here p (OpenAt s) s = Some (g', e)"
      using Cons.prems by simp
    then show ?thesis by (rule Cons.IH)
  next
    case GroupClose
    then have "match_here p
        (case g of OpenAt s0 \<Rightarrow> Captured (take (length s0 - length s) s0) | _ \<Rightarrow> g) s
        = Some (g', e)"
      using Cons.prems by simp
    then show ?thesis by (rule Cons.IH)
  qed
qed



lemma helpful_leading:
  assumes d: "d \<noteq> []" "list_all is_digit d" and w: "w \<noteq> []" "list_all is_space w"
    and v: "v \<noteq> []" "list_all is_space v"
  shows "search_group1 helpful_re (d @ w @ ''people'' @ v @ ''found'' @ rest) = Some d"
proof -
  let ?s = "d @ w @ ''people'' @ v @ ''found'' @ rest"
  have a: "match_here (lits ''found'' @ []) (Captured d) (''found'' @ rest) = Some (Captured d, rest)"
    by (simp only: lits_match) simp
  have b: "match_here (Ch Space Plus # lits ''found'') (Captured d) (v @ ''found'' @ rest)
      = Some (Captured d, rest)"
    using plus_greedy [OF v(1), of Space "''found'' @ rest" "lits ''found''" "Captured d"
        "(Captured d, rest)"] v(2) a
    by (simp add: stops_def is_space_def)
  have c: "match_here (Ch (Lit CHR ''e'') Opt # Ch Space Plus # lits ''found'') (Captured d)
      (CHR ''e'' # v @ ''found'' @ rest) = Some (Captured d, rest)"
    by (rule opt_take [OF _ b]) simp
  have e: "match_here (lits ''peopl'' @ Ch (Lit CHR ''e'') Opt # Ch Space Plus # lits ''found'')
      (Captured d) (''peopl'' @ CHR ''e'' # v @ ''found'' @ rest) = Some (Captured d, rest)"
    using c by (simp only: lits_match)
  have f: "match_here (Ch Space Plus # lits ''peopl'' @ Ch (Lit CHR ''e'') Opt # Ch Space Plus
      # lits ''found'') (Captured d) (w @ ''people'' @ v @ ''found'' @ rest)
      = Some (Captured d, rest)"
    using plus_greedy [OF w(1), of Space "''people'' @ v @ ''found'' @ rest"
        "lits ''peopl'' @ Ch (Lit CHR ''e'') Opt # Ch Space Plus # lits ''found''" "Captured d"
        "(Captured d, rest)"] w(2) e
    by (simp add: stops_def is_space_def)
  obtain y w' where wy: "w = y # w'" "is_space y" using w by (cases w) auto
  have nd: "\<not> is_digit y" using wy(2) by (auto simp: is_space_def is_digit_def)
  have st: "stops Digit (w @ ''people'' @ v @ ''found'' @ rest)"
    using wy nd by (simp add: stops_def)
  have g: "match_here (GroupClose # Ch Space Plus # lits ''peopl'' @ Ch (Lit CHR ''e'') Opt
      # Ch Space Plus # lits ''found'') (OpenAt ?s) (w @ ''people'' @ v @ ''found'' @ rest)
      = Some (Captured d, rest)"
    using f by simp
  have "match_here (Ch Digit Plus # GroupClose # Ch Space Plus # lits ''peopl''
      @ Ch (Lit CHR ''e'') Opt # Ch Space Plus # lits ''found'') (OpenAt ?s) ?s
      = Some (Captured d, rest)"
    using plus_greedy [OF d(1) _ st g] d(2) by simp
  then have "match_here helpful_re NoGroup ?s = Some (Captured d, rest)"
    by (simp add: helpful_re_def)
  then have "search helpful_re ?s = Some (Captured d, rest)"
    by (rule search_at_start)
  then show ?thesis by (simp add: search_group1_def)
qed

lemma long_digits_facts:
  "long_digits \<noteq> []" "list_all is_digit long_digits" "length long_digits = 4301"
  by (simp_all add: long_digits_def is_digit_def list_all_iff)

lemma long_digits_votes:
  "extract_helpful_votes (long_digits @ '' people found this helpful'') = Inl ValueError"
proof -
  have "search_group1 helpful_re
      (long_digits @ '' '' @ ''people'' @ '' '' @ ''found'' @ '' this helpful'') = Some long_digits"
    by (rule helpful_leading) (simp_all add: long_digits_facts is_space_def)
  then have "\<not> votes_in_range (long_digits @ '' people found this helpful'')"
    by (simp add: votes_in_range_def long_digits_facts max_str_digits_def)
  then show ?thesis by (rule extract_helpful_votes_out_of_range)
qed
section \<open>Trimming and deleting\<close>

lemma search_none_sub: "search p s = None \<Longrightarrow> re_sub_del p s = s"
proof (induction s)
  case Nil
  then show ?case by (simp add: re_sub_del.simps)
next
  case (Cons x xs)
  then have "match_here p NoGroup (x # xs) = None" "search p xs = None"
    by (auto split: option.splits)
  then show ?case using Cons.IH by (simp add: re_sub_del.simps)
qed

lemma dropWhile_rev_keep:
  assumes "t = [] \<or> \<not> P (hd t)"
  shows "dropWhile P (rev (dropWhile P (rev t))) = rev (dropWhile P (rev t))"
proof (cases "dropWhile P (rev t) = []")
  case True
  show ?thesis unfolding True by simp
next
  case False
  then have "t \<noteq> []" by auto
  then have h: "\<not> P (hd t)" using assms by simp
  have "rev t = takeWhile P (rev t) @ dropWhile P (rev t)" by simp
  then have "t = rev (dropWhile P (rev t)) @ rev (takeWhile P (rev t))"
    by (metis rev_append rev_rev_ident)
  then have "hd t = hd (rev (dropWhile P (rev t)))"
    using False by (metis hd_append2 rev_is_Nil_conv)
  then have "\<not> P (hd (rev (dropWhile P (rev t))))" using h by simp
  then show ?thesis using False by (cases "rev (dropWhile P (rev t))") simp_all
qed

lemma strip_idem: "strip (strip s) = strip s"
proof -
  let ?t = "dropWhile is_space s"
  have h: "?t = [] \<or> \<not> is_space (hd ?t)"
    by (metis hd_dropWhile)
  have "dropWhile is_space (rev (dropWhile is_space (rev ?t))) = rev (dropWhile is_space (rev ?t))"
    using dropWhile_rev_keep [of "dropWhile is_space s" is_space, OF h] .
  then have "dropWhile is_space (strip s) = strip s" by (simp add: strip_def)
  moreover have "dropWhile is_space (rev (strip s)) = rev (strip s)"
    by (simp add: strip_def dropWhile_idem)
  ultimately show ?thesis by (simp add: strip_def)
qed

lemma strip_Nil [simp]: "strip [] = []"
  by (simp add: strip_def)

lemma clean_date_no_match: "search date_re t = None \<Longrightarrow> clean_date t = strip t"
  by (simp add: clean_date_def search_none_sub)

lemma clean_date_idem_if: 
  assumes "search date_re (clean_date t) = None"
  shows "clean_date (clean_date t) = clean_date t"
proof -
  have "clean_date (clean_date t) = strip (clean_date t)"
    using assms by (rule clean_date_no_match)
  then show ?thesis by (simp add: clean_date_def strip_idem)
qed

lemma clean_date_leading:
  assumes m: "match_here date_re NoGroup t = Some (g, rest)" and nonempty: "length rest < length t"
  shows "clean_date t = strip (re_sub_del date_re rest)"
proof -
  have "t \<noteq> []" using nonempty by auto
  moreover have "re_sub_del date_re t = re_sub_del date_re rest"
    using m nonempty by (subst re_sub_del.simps) simp
  ultimately show ?thesis by (simp add: clean_date_def)
qed

lemma date_match_nonempty:
  assumes "match_here date_re NoGroup t = Some (g, rest)"
  shows "length rest < length t"
proof -
  have eq: "date_re = Ch (Lit CHR ''R'') Once # tl date_re"
    by (simp add: date_re_def lits_def)
  have "match_here (Ch (Lit CHR ''R'') Once # tl date_re) NoGroup t = Some (g, rest)"
    by (subst eq [symmetric]) (rule assms)
  then obtain x ys where t: "t = x # ys" and r: "match_here (tl date_re) NoGroup ys = Some (g, rest)"
    using once_consumes by blast
  obtain zs where "ys = zs @ rest" using match_here_suffix [OF r] by blast
  then show ?thesis using t by simp
qed

section \<open>The claims about the value parsers\<close>




text \<open>
  C7.  The helpful-votes parser reads the integer in front of ``people found'': the plural
  phrasing \<open>23 people found this helpful\<close> gives 23 and \<open>One person found this helpful\<close>
  gives 0.  The singular phrasing with a number, \<open>1 person found this helpful\<close>, is not
  recognised: the pattern \<^verbatim>\<open>people?\<close> makes only the final \<open>e\<close> optional, so the
  parser answers 0 where one vote is stated.
\<close>

theorem helpful_votes_singular_not_recognised:
  "extract_helpful_votes ''1 person found this helpful'' = Inr 0
   \<and> extract_helpful_votes ''23 people found this helpful'' = Inr 23
   \<and> extract_helpful_votes ''One person found this helpful'' = Inr 0"
  by (simp add: extract_helpful_votes_def search_group1_def helpful_re_def lits_def py_int_def
      max_str_digits_def is_digit_def is_space_def digits_val_def digit_val_def)

text \<open>
  C8, as the code has it.  The date normalizer deletes the preface matched by
  \<^verbatim>\<open>Reviewed in.*?on\s+\<close> and trims blanks from both ends of what is left:
  \<open>Reviewed in the United States on January 5, 2023\<close> gives \<open>January 5, 2023\<close>; a text
  that begins with a preface and has no further one gives the trimmed remainder; a text
  with no preface is returned trimmed (unchanged when it has no blanks at its ends); and
  applying the normalizer again to an output that holds no preface changes nothing.
\<close>

theorem clean_date_strips_preface:
  "clean_date ''Reviewed in the United States on January 5, 2023'' = ''January 5, 2023''
   \<and> (match_here date_re NoGroup t = Some (g, rest) \<and> search date_re rest = None
        \<longrightarrow> clean_date t = strip rest)
   \<and> (search date_re t = None \<longrightarrow> clean_date t = strip t)
   \<and> (search date_re (clean_date t) = None \<longrightarrow> clean_date (clean_date t) = clean_date t)"
proof -
  have e: "clean_date ''Reviewed in the United States on January 5, 2023'' = ''January 5, 2023''"
    by (simp add: clean_date_def re_sub_del.simps date_re_def lits_def strip_def is_space_def)
  have a: "clean_date t = strip rest"
    if "match_here date_re NoGroup t = Some (g, rest)" "search date_re rest = None"
    using clean_date_leading [OF that(1) date_match_nonempty [OF that(1)]]
      search_none_sub [OF that(2)] by simp
  show ?thesis
    apply (intro conjI impI)
    subgoal by (rule e)
    subgoal by (elim conjE) (rule a; assumption)
    subgoal by (rule clean_date_no_match)
    subgoal by (rule clean_date_idem_if)
    done
qed

theorem clean_date_strips_preface_witness:
  "clean_date ''Reviewed in the United States on January 5, 2023'' = strip ''January 5, 2023''
   \<and> clean_date ''January 5, 2023'' = strip ''January 5, 2023''
   \<and> clean_date (clean_date ''January 5, 2023'') = clean_date ''January 5, 2023''"
proof -
  note ev = date_re_def lits_def is_space_def
  have m: "match_here date_re NoGroup ''Reviewed in the United States on January 5, 2023''
      = Some (NoGroup, ''January 5, 2023'')"
    by (simp add: ev)
  have s: "search date_re ''January 5, 2023'' = None" by (simp add: ev)
  have c: "clean_date ''January 5, 2023'' = ''January 5, 2023''"
    by (simp add: clean_date_def re_sub_del.simps date_re_def lits_def strip_def is_space_def)
  have w1: "clean_date ''Reviewed in the United States on January 5, 2023''
      = strip ''January 5, 2023''"
    using clean_date_strips_preface
      [of "''Reviewed in the United States on January 5, 2023''" NoGroup "''January 5, 2023''",
        THEN conjunct2, THEN conjunct1] m s
    by simp
  have w2: "clean_date ''January 5, 2023'' = strip ''January 5, 2023''"
    using clean_date_strips_preface
      [of "''January 5, 2023''" g0 rest0, THEN conjunct2, THEN conjunct2, THEN conjunct1] s
    by simp
  have w3: "clean_date (clean_date ''January 5, 2023'') = clean_date ''January 5, 2023''"
    using clean_date_strips_preface
      [of "''January 5, 2023''" g0 rest0, THEN conjunct2, THEN conjunct2, THEN conjunct2] s c
    by simp
  show ?thesis using w1 w2 w3 by (intro conjI)
qed

theorem clean_date_not_idempotent:
  "clean_date (clean_date ''Reviewed Reviewed in a on in b on c'')
     \<noteq> clean_date ''Reviewed Reviewed in a on in b on c''
   \<and> search date_re '' January 5, 2023'' = None
   \<and> clean_date '' January 5, 2023'' \<noteq> '' January 5, 2023''"
proof -
  note ev = clean_date_def re_sub_del.simps date_re_def lits_def strip_def is_space_def
  have a: "clean_date ''Reviewed Reviewed in a on in b on c'' = ''Reviewed in b on c''"
    by (simp add: ev)
  have b: "clean_date ''Reviewed in b on c'' = ''c''"
    by (simp add: ev)
  have c: "search date_re '' January 5, 2023'' = None"
    by (simp add: date_re_def lits_def is_space_def)
  have d: "clean_date '' January 5, 2023'' = ''January 5, 2023''"
    by (simp add: ev)
  show ?thesis unfolding a b d using c by simp
qed

section \<open>The bounds of rating and helpful votes\<close>

lemma extract_review_fields:
  assumes "extract_review a t e = Inr r"
  shows "\<exists>s2 s5. extract_rating_from_stars s2 = Inr (rating r)
           \<and> extract_helpful_votes s5 = Inr (helpful_votes r)"
  using assms unfolding extract_review_def Let_def and_then_def
  by (auto split: sum.splits)

lemma extract_review_nonnegative:
  assumes "extract_review a t e = Inr r"
  shows "nonnegative r"
proof -
  obtain s2 s5 where "extract_rating_from_stars s2 = Inr (rating r)"
    and "extract_helpful_votes s5 = Inr (helpful_votes r)"
    using extract_review_fields [OF assms] by blast
  then show ?thesis
    using extract_rating_from_stars_total [of s2] extract_helpful_votes_value [of s5]
    by (auto simp: nonnegative_def)
qed

lemma reviews_loop_nonnegative: "list_all nonnegative (reviews_loop a t els)"
proof (induction els)
  case Nil
  then show ?case by simp
next
  case (Cons e els)
  then show ?case
    by (cases "extract_review a t e") (simp_all add: extract_review_nonnegative)
qed

lemma extract_page_nonnegative:
  "list_all nonnegative (fst (extract_reviews_from_page p a t))"
proof (cases "fst (review_elements_loop p review_selectors)")
  case Nil
  then show ?thesis by (simp add: extract_reviews_from_page_def)
next
  case (Cons x xs)
  then show ?thesis
    using reviews_loop_nonnegative [of a t "x # xs"]
    by (simp add: extract_reviews_from_page_def del: reviews_loop.simps)
qed

lemma pages_loop_nonnegative:
  "list_all nonnegative (fst (pages_loop site a t sf ns))"
proof (induction ns)
  case Nil
  then show ?case by simp
next
  case (Cons n ns)
  then show ?case
    using extract_page_nonnegative
    by (cases "site (review_url a sf n)") (simp_all add: Let_def split_beta)
qed

lemma extract_helpful_votes_outcome:
  "(case extract_helpful_votes s of
      Inr k \<Rightarrow> 0 \<le> k \<and> votes_in_range s
    | Inl e \<Rightarrow> e = ValueError \<and> \<not> votes_in_range s)"
proof (cases "votes_in_range s")
  case True
  then show ?thesis using extract_helpful_votes_in_range [of s] by auto
next
  case False
  then show ?thesis using extract_helpful_votes_out_of_range [of s] by simp
qed

text \<open>
  C10, as the code has it.  Every Review that the harvester emits has a non-negative
  rating and a non-negative number of helpful votes, whatever the texts on the pages.
  The rating parsers return a non-negative value for every input text.  The helpful-votes
  parser returns a non-negative integer, except that it raises \<open>ValueError\<close> when the
  number in front of ``people found'' has more than 4300 digits; no Review is emitted
  from such a text.  The rating is not bounded by 5: the parser applies no bound to the
  number it reads.
\<close>

theorem parsers_total_nonnegative:
  "(\<exists>r. extract_rating_from_stars text1 = Inr r \<and> 0 \<le> r)
   \<and> (\<exists>r. extract_rating text2 = Inr r \<and> 0 \<le> r)
   \<and> (case extract_helpful_votes text3 of
         Inr k \<Rightarrow> 0 \<le> k \<and> votes_in_range text3
       | Inl e \<Rightarrow> e = ValueError \<and> \<not> votes_in_range text3)
   \<and> list_all nonnegative (fst (scrape_reviews site pr sf max_pages))"
proof (intro conjI)
  show "\<exists>r. extract_rating_from_stars text1 = Inr r \<and> 0 \<le> r"
    by (rule extract_rating_from_stars_total)
  show "\<exists>r. extract_rating text2 = Inr r \<and> 0 \<le> r"
    by (rule extract_rating_total)
  show "case extract_helpful_votes text3 of
         Inr k \<Rightarrow> 0 \<le> k \<and> votes_in_range text3
       | Inl e \<Rightarrow> e = ValueError \<and> \<not> votes_in_range text3"
    by (rule extract_helpful_votes_outcome)
  show "list_all nonnegative (fst (scrape_reviews site pr sf max_pages))"
    unfolding scrape_reviews_def by (rule pages_loop_nonnegative)
qed

theorem rating_above_five:
  "\<exists>r. extract_review ''B01'' ''Bag'' nine_star_review = Inr r \<and> 5 < rating r"
proof -
  have p: "extract_rating_from_stars ''9 stars'' = Inr 9"
    by (simp add: extract_rating_from_stars_def search_group1_def out_of_5_re_def stars_re_def
        number_group_def lits_def py_float_def is_digit_def is_space_def digits_val_def
        digit_val_def)
  have "extract_review ''B01'' ''Bag'' nine_star_review
      = Inr \<lparr>product_id = ''B01'', product_title = ''Bag'', reviewer = ''Anonymous'', rating = 9,
             date = [], verified_purchase = False, content = [], helpful_votes = 0\<rparr>"
    by (simp add: extract_review_def nine_star_review_def leaf_def and_then_def str_of_def
        text_content_def strip_opt_def strip_def is_space_def p clean_date_def
        extract_helpful_votes_def)
  then show ?thesis by simp
qed
section \<open>The selector loops\<close>

lemma first_match_at_Cons:
  "first_match_at P (x # xs) i =
     (if i = 0 then P x else \<not> P x \<and> first_match_at P xs (i - 1))"
  by (cases i) (auto simp: first_match_at_def)

lemma result_selector_loop_first:
  "first_match_at (\<lambda>s. page_select p s \<noteq> []) sels i \<Longrightarrow>
   result_selector_loop p sels = (Some (sels ! i), take (Suc i) sels)"
proof (induction sels arbitrary: i)
  case Nil
  then show ?case by (simp add: first_match_at_def)
next
  case (Cons s sels)
  show ?case
  proof (cases i)
    case 0
    then show ?thesis using Cons.prems by (simp add: first_match_at_Cons)
  next
    case (Suc j)
    then have "page_select p s = []" "first_match_at (\<lambda>s. page_select p s \<noteq> []) sels j"
      using Cons.prems by (simp_all add: first_match_at_Cons)
    then show ?thesis using Cons.IH [of j] Suc by simp
  qed
qed

lemma review_elements_loop_first:
  "first_match_at (\<lambda>s. page_select p s \<noteq> []) sels i \<Longrightarrow>
   review_elements_loop p sels = (page_select p (sels ! i), take (Suc i) sels)"
proof (induction sels arbitrary: i)
  case Nil
  then show ?case by (simp add: first_match_at_def)
next
  case (Cons s sels)
  show ?case
  proof (cases i)
    case 0
    then show ?thesis using Cons.prems by (simp add: first_match_at_Cons)
  next
    case (Suc j)
    then have "page_select p s = []" "first_match_at (\<lambda>s. page_select p s \<noteq> []) sels j"
      using Cons.prems by (simp_all add: first_match_at_Cons)
    then show ?thesis using Cons.IH [of j] Suc by simp
  qed
qed

lemma text_content_first:
  "l \<noteq> [] \<Longrightarrow> text_content (first l) = Inr (el_text (hd l))"
  by (cases l) (simp_all add: text_content_def first_def)

lemma title_loop_first:
  "first_match_at (\<lambda>s. el_select c s \<noteq> []) sels i \<Longrightarrow>
   title_loop c sels = (Inr (el_text (hd (el_select c (sels ! i)))), take (Suc i) sels)"
proof (induction sels arbitrary: i)
  case Nil
  then show ?case by (simp add: first_match_at_def)
next
  case (Cons s sels)
  show ?case
  proof (cases i)
    case 0
    then show ?thesis using Cons.prems by (simp add: first_match_at_Cons text_content_first)
  next
    case (Suc j)
    then have "el_select c s = []" "first_match_at (\<lambda>s. el_select c s \<noteq> []) sels j"
      using Cons.prems by (simp_all add: first_match_at_Cons)
    then show ?thesis using Cons.IH [of j] Suc by simp
  qed
qed

text \<open>
  C1.  In each selector-fallback loop (the result-container loop and the title loop of
  product discovery, the review-selector loop of review extraction) the value returned is
  the one of the first candidate, in declared order, that matches at least one element,
  and the candidates queried are exactly those up to and including it: no later candidate
  is consulted, whether or not it would match.  \<open>search_products\<close> and
  \<open>_extract_reviews_from_page\<close> work on the elements of that candidate.
\<close>

theorem first_matching_candidate_wins:
  "(first_match_at (\<lambda>s. page_select p s \<noteq> []) sels i \<longrightarrow>
      result_selector_loop p sels = (Some (sels ! i), take (Suc i) sels)
      \<and> review_elements_loop p sels = (page_select p (sels ! i), take (Suc i) sels))
   \<and> (first_match_at (\<lambda>s. el_select c s \<noteq> []) sels j \<longrightarrow>
      title_loop c sels = (Inr (el_text (hd (el_select c (sels ! j)))), take (Suc j) sels))
   \<and> (site (search_url keyword) = Inr p
        \<and> first_match_at (\<lambda>s. page_select p s \<noteq> []) selectors i \<longrightarrow>
      search_products site keyword k
        = products_loop (enumerate 0 (py_take k (page_select p (selectors ! i)))))
   \<and> (\<not> login_redirect p \<and> first_match_at (\<lambda>s. page_select p s \<noteq> []) review_selectors i \<longrightarrow>
      fst (extract_reviews_from_page p a t) = reviews_loop a t (page_select p (review_selectors ! i)))"
proof (intro conjI impI)
  assume "first_match_at (\<lambda>s. page_select p s \<noteq> []) sels i"
  then show "result_selector_loop p sels = (Some (sels ! i), take (Suc i) sels)"
    by (rule result_selector_loop_first)
next
  assume "first_match_at (\<lambda>s. page_select p s \<noteq> []) sels i"
  then show "review_elements_loop p sels = (page_select p (sels ! i), take (Suc i) sels)"
    by (rule review_elements_loop_first)
next
  assume "first_match_at (\<lambda>s. el_select c s \<noteq> []) sels j"
  then show "title_loop c sels = (Inr (el_text (hd (el_select c (sels ! j)))), take (Suc j) sels)"
    by (rule title_loop_first)
next
  assume a: "site (search_url keyword) = Inr p
    \<and> first_match_at (\<lambda>s. page_select p s \<noteq> []) selectors i"
  then have "fst (result_selector_loop p selectors) = Some (selectors ! i)"
    using result_selector_loop_first [of p selectors i] by simp
  then show "search_products site keyword k
      = products_loop (enumerate 0 (py_take k (page_select p (selectors ! i))))"
    using a by (simp add: search_products_def)
next
  assume a: "\<not> login_redirect p
    \<and> first_match_at (\<lambda>s. page_select p s \<noteq> []) review_selectors i"
  then have "fst (review_elements_loop p review_selectors) = page_select p (review_selectors ! i)"
    using review_elements_loop_first [of p review_selectors i] by simp
  moreover have "page_select p (review_selectors ! i) \<noteq> []"
    using a by (simp add: first_match_at_def)
  ultimately show "fst (extract_reviews_from_page p a t)
      = reviews_loop a t (page_select p (review_selectors ! i))"
    using a by (simp add: extract_reviews_from_page_def split: list.splits)
qed

theorem first_matching_candidate_wins_witness:
  "result_selector_loop two_match_page [''c1'', ''c2'', ''c3''] = (Some ''c1'', [''c1''])
   \<and> review_elements_loop two_match_page [''c1'', ''c2'', ''c3''] = ([leaf ''one''], [''c1''])
   \<and> title_loop two_match_card [''c1'', ''c2'', ''c3''] = (Inr (Some ''one''), [''c1''])"
proof -
  have a: "first_match_at (\<lambda>s. page_select two_match_page s \<noteq> []) [''c1'', ''c2'', ''c3''] 0"
    by (simp add: first_match_at_def two_match_page_def)
  have b: "first_match_at (\<lambda>s. el_select two_match_card s \<noteq> []) [''c1'', ''c2'', ''c3''] 0"
    by (simp add: first_match_at_def two_match_card_def)
  have w1: "result_selector_loop two_match_page [''c1'', ''c2'', ''c3''] = (Some ''c1'', [''c1''])
      \<and> review_elements_loop two_match_page [''c1'', ''c2'', ''c3''] = ([leaf ''one''], [''c1''])"
    using first_matching_candidate_wins
      [of two_match_page "[''c1'', ''c2'', ''c3'']" 0, THEN conjunct1] a
    by (simp add: two_match_page_def)
  have w2: "title_loop two_match_card [''c1'', ''c2'', ''c3''] = (Inr (Some ''one''), [''c1''])"
    using first_matching_candidate_wins
      [of p0 "[''c1'', ''c2'', ''c3'']" i0 two_match_card 0, THEN conjunct2, THEN conjunct1] b
    by (simp add: two_match_card_def leaf_def)
  show ?thesis using w1 w2 by simp
qed
section \<open>The page loop of the harvester\<close>

lemma requested_append: "requested (xs @ ys) = requested xs @ requested ys"
  by (induction xs rule: requested.induct) simp_all

lemma requested_extract: "requested (snd (extract_reviews_from_page p a t)) = []"
  by (simp add: extract_reviews_from_page_def split: list.splits)

lemma pages_loop_stops:
  assumes "m \<le> N" and "N \<le> M"
    and "\<forall>n. m \<le> n \<and> n < N \<longrightarrow>
          site (review_url a sf n) = Inr (pages n) \<and> fst (found_reviews_loop (pages n) found_selectors)"
    and "site (review_url a sf N) = Inr (pages N)"
    and "\<not> fst (found_reviews_loop (pages N) found_selectors)"
  shows "fst (pages_loop site a t sf [m..M])
           = concat (map (\<lambda>n. fst (extract_reviews_from_page (pages n) a t)) [m..N - 1])
         \<and> requested (snd (pages_loop site a t sf [m..M])) = map (review_url a sf) [m..N]"
  using assms
proof (induction "nat (N - m)" arbitrary: m)
  case 0
  then have mN: "m = N" by simp
  have "[N..M] = N # [N + 1..M]" using 0(3) by (simp add: upto_rec1)
  then show ?case using mN 0(5,6) by simp
next
  case (Suc k)
  then have lt: "m < N" by simp
  have step: "[m..M] = m # [m + 1..M]" using lt Suc(4) by (simp add: upto_rec1)
  have pm: "site (review_url a sf m) = Inr (pages m)"
    "fst (found_reviews_loop (pages m) found_selectors)"
    using Suc(5) lt by simp_all
  have k: "k = nat (N - (m + 1))" using Suc(2) by simp
  have ih: "fst (pages_loop site a t sf [m + 1..M])
           = concat (map (\<lambda>n. fst (extract_reviews_from_page (pages n) a t)) [m + 1..N - 1])
         \<and> requested (snd (pages_loop site a t sf [m + 1..M])) = map (review_url a sf) [m + 1..N]"
    using Suc(1) [OF k] lt Suc(4,5,6,7) by simp
  have l1: "[m..N - 1] = m # [m + 1..N - 1]" using lt by (simp add: upto_rec1)
  have l2: "[m..N] = m # [m + 1..N]" using lt by (simp add: upto_rec1)
  show ?case
    unfolding step l1 l2 using pm ih
    by (simp add: requested_append requested_extract split_beta)
qed

lemma pages_loop_bounded:
  assumes "m \<le> N"
    and "site (review_url a sf N) = Inr p"
    and "\<not> fst (found_reviews_loop p found_selectors)"
  shows "\<exists>K. K \<le> N \<and> requested (snd (pages_loop site a t sf [m..M])) = map (review_url a sf) [m..K]"
  using assms
proof (induction "nat (N - m)" arbitrary: m)
  case 0
  then have mN: "m = N" by simp
  show ?case
  proof (cases "N \<le> M")
    case True
    then have "[N..M] = N # [N + 1..M]" by (simp add: upto_rec1)
    then have "requested (snd (pages_loop site a t sf [m..M])) = map (review_url a sf) [m..N]"
      using mN 0(3,4) by simp
    then show ?thesis by blast
  next
    case False
    then have "requested (snd (pages_loop site a t sf [m..M])) = map (review_url a sf) [m..m - 1]"
      using mN by simp
    then show ?thesis using mN by (intro exI [of _ "m - 1"]) simp
  qed
next
  case (Suc k)
  then have lt: "m < N" by simp
  show ?case
  proof (cases "m \<le> M")
    case False
    then have "requested (snd (pages_loop site a t sf [m..M])) = map (review_url a sf) [m..m - 1]"
      by simp
    then show ?thesis using lt by (intro exI [of _ "m - 1"]) simp
  next
    case True
    then have step: "[m..M] = m # [m + 1..M]" by (simp add: upto_rec1)
    have one: "[m..m] = [m]" by (simp add: upto_rec1)
    have k: "k = nat (N - (m + 1))" using Suc(2) by simp
    obtain K where K: "K \<le> N"
      "requested (snd (pages_loop site a t sf [m + 1..M])) = map (review_url a sf) [m + 1..K]"
      using Suc(1) [OF k] lt Suc(4,5) by auto
    show ?thesis
    proof (cases "site (review_url a sf m)")
      case (Inl e)
      then have "requested (snd (pages_loop site a t sf [m..M])) = map (review_url a sf) [m..m]"
        unfolding step one by simp
      then show ?thesis using lt by (intro exI [of _ m]) simp
    next
      case (Inr q)
      show ?thesis
      proof (cases "fst (found_reviews_loop q found_selectors)")
        case False
        then have "requested (snd (pages_loop site a t sf [m..M])) = map (review_url a sf) [m..m]"
          unfolding step one using Inr by simp
        then show ?thesis using lt by (intro exI [of _ m]) simp
      next
        case True
        have r: "requested (snd (pages_loop site a t sf [m..M]))
            = review_url a sf m # map (review_url a sf) [m + 1..K]"
          unfolding step using Inr True K(2)
          by (simp add: requested_append requested_extract split_beta)
        show ?thesis
        proof (cases "m + 1 \<le> K")
          case True
          then have "[m..K] = m # [m + 1..K]" by (simp add: upto_rec1)
          then show ?thesis using r K(1) by (intro exI [of _ K]) simp
        next
          case False
          then have "[m + 1..K] = []" by simp
          then have "requested (snd (pages_loop site a t sf [m..M])) = map (review_url a sf) [m..m]"
            using r one by simp
          then show ?thesis using lt by (intro exI [of _ m]) simp
        qed
      qed
    qed
  qed
qed

text \<open>
  C2.  Let page \<open>N\<close>, with \<open>1 \<le> N \<le> max_pages\<close>, load and have no match for any
  review-container candidate.  Then no page after \<open>N\<close> is requested: the requested URLs
  are those of pages \<open>1..K\<close> for some \<open>K \<le> N\<close>.  When every page before \<open>N\<close> loads and
  has a match, the pages requested are exactly \<open>1..N\<close> and the reviews returned are
  exactly those extracted from pages \<open>1..N-1\<close>, in page order.
\<close>

theorem harvest_stops_at_page_without_reviews:
  assumes "1 \<le> N" and "N \<le> max_pages"
    and "site (review_url (asin pr) sf N) = Inr (pages N)"
    and "\<not> fst (found_reviews_loop (pages N) found_selectors)"
  shows "(\<exists>K. K \<le> N \<and> requested (snd (scrape_reviews site pr sf max_pages))
            = map (review_url (asin pr) sf) [1..K])
     \<and> ((\<forall>n. 1 \<le> n \<and> n < N \<longrightarrow>
            site (review_url (asin pr) sf n) = Inr (pages n)
            \<and> fst (found_reviews_loop (pages n) found_selectors)) \<longrightarrow>
          fst (scrape_reviews site pr sf max_pages)
            = concat (map (\<lambda>n. fst (extract_reviews_from_page (pages n) (asin pr) (title pr)))
                [1..N - 1])
          \<and> requested (snd (scrape_reviews site pr sf max_pages))
            = map (review_url (asin pr) sf) [1..N])"
proof (intro conjI impI)
  show "\<exists>K. K \<le> N \<and> requested (snd (scrape_reviews site pr sf max_pages))
            = map (review_url (asin pr) sf) [1..K]"
    unfolding scrape_reviews_def
    using pages_loop_bounded [where m = 1 and p = "pages N" and site = site and a = "asin pr" and sf = sf and N = N and t = "title pr" and M = max_pages, OF assms(1) assms(3) assms(4)] .
next
  assume ok: "\<forall>n. 1 \<le> n \<and> n < N \<longrightarrow>
            site (review_url (asin pr) sf n) = Inr (pages n)
            \<and> fst (found_reviews_loop (pages n) found_selectors)"
  note r = pages_loop_stops [where m = 1 and t = "title pr" and site = site and a = "asin pr" and sf = sf and N = N and M = max_pages and pages = pages, OF assms(1) assms(2) ok assms(3) assms(4)]
  show "fst (scrape_reviews site pr sf max_pages)
            = concat (map (\<lambda>n. fst (extract_reviews_from_page (pages n) (asin pr) (title pr)))
                [1..N - 1])"
    unfolding scrape_reviews_def using r by (rule conjunct1)
  show "requested (snd (scrape_reviews site pr sf max_pages))
            = map (review_url (asin pr) sf) [1..N]"
    unfolding scrape_reviews_def using r by (rule conjunct2)
qed

lemma extract_bare_review:
  "extract_review ''B01'' ''Bag'' bare_review = Inr anonymous_review"
  by (simp add: extract_review_def bare_review_def anonymous_review_def and_then_def str_of_def
      strip_opt_def strip_def is_space_def extract_rating_from_stars_def clean_date_def
      extract_helpful_votes_def)

lemma demo_page_not_redirect:
  "\<not> login_redirect (demo_pages 1)"
  by (simp add: login_redirect_def demo_pages_def page_with_reviews_def review_url_def
      str_int_def str_nat.simps truthy_def lower_def lower_char_def startswith_def)

theorem harvest_stops_at_page_without_reviews_witness:
  "fst (scrape_reviews demo_site demo_product None 3)
     = [anonymous_review, anonymous_review, anonymous_review]
   \<and> requested (snd (scrape_reviews demo_site demo_product None 3))
     = [review_url ''B01'' None 1, review_url ''B01'' None 2]"
proof -
  have ne: "review_url ''B01'' None 1 \<noteq> review_url ''B01'' None 2"
    by (simp add: review_url_def str_int_def str_nat.simps truthy_def)
  have a: "asin demo_product = ''B01''" "title demo_product = ''Bag''"
    by (simp_all add: demo_product_def)
  have s2: "demo_site (review_url (asin demo_product) None 2) = Inr (demo_pages 2)"
    using ne by (simp add: demo_site_def a)
  have nf: "\<not> fst (found_reviews_loop (demo_pages 2) found_selectors)"
    by (simp add: demo_pages_def page_with_reviews_def found_selectors_def)
  have ok: "\<forall>n. 1 \<le> n \<and> n < 2 \<longrightarrow>
      demo_site (review_url (asin demo_product) None n) = Inr (demo_pages n)
      \<and> fst (found_reviews_loop (demo_pages n) found_selectors)"
  proof (intro allI impI)
    fix n :: int
    assume "1 \<le> n \<and> n < 2"
    then have n: "n = 1" by simp
    show "demo_site (review_url (asin demo_product) None n) = Inr (demo_pages n)
      \<and> fst (found_reviews_loop (demo_pages n) found_selectors)"
      unfolding n
      by (simp add: demo_site_def a demo_pages_def page_with_reviews_def found_selectors_def)
  qed
  have els: "fst (review_elements_loop (demo_pages 1) review_selectors)
      = [bare_review, bare_review, bare_review]"
    by (simp add: demo_pages_def page_with_reviews_def review_selectors_def numeral_3_eq_3)
  have ex: "fst (extract_reviews_from_page (demo_pages 1) ''B01'' ''Bag'')
      = [anonymous_review, anonymous_review, anonymous_review]"
    using demo_page_not_redirect els
    by (simp add: extract_reviews_from_page_def extract_bare_review)
  have u1: "[1..(2::int) - 1] = [1]" and u2: "[1..(2::int)] = [1, 2]"
    by (simp_all add: upto_rec1)
  have "(1::int) \<le> 2" and "(2::int) \<le> 3" by simp_all
  from harvest_stops_at_page_without_reviews
    [where site = demo_site and pr = demo_product and sf = None and N = 2 and max_pages = 3
      and pages = demo_pages, OF this s2 nf, THEN conjunct2, THEN mp, OF ok]
  show ?thesis unfolding u1 u2 a by (simp add: ex)
qed
section \<open>A login redirect during harvesting\<close>

lemma signin_page_is_redirect: "login_redirect signin_page"
  by (simp add: login_redirect_def signin_page_def lower_def lower_char_def startswith_def)

lemma stale_site_urls:
  "stale_site (review_url ''B01'' None 1) = Inr (demo_pages 1)"
  "stale_site (review_url ''B01'' None 2) = Inr signin_page"
  by (simp_all add: stale_site_def review_url_def str_int_def str_nat.simps truthy_def)

lemma first_page_reviews:
  "extract_reviews_from_page (demo_pages 1) ''B01'' ''Bag''
     = ([anonymous_review, anonymous_review, anonymous_review], [])"
proof -
  have "fst (review_elements_loop (demo_pages 1) review_selectors)
      = [bare_review, bare_review, bare_review]"
    by (simp add: demo_pages_def page_with_reviews_def review_selectors_def numeral_3_eq_3)
  then show ?thesis
    using demo_page_not_redirect
    by (simp add: extract_reviews_from_page_def extract_bare_review)
qed

text \<open>
  C5.  The harvester is to notice a login redirect, stop the harvest of the product, keep
  what it has collected and flag the stale session.  The code does stop and keep the
  reviews, but it does not flag the redirect: the only URL check stands in
  \<open>_extract_reviews_from_page\<close>, which \<open>scrape_reviews\<close> calls only after a review
  container has been found on the page.  A sign-in page shows none, so the loop breaks on
  ``no reviews found'' first.  With three reviews on page 1 and the sign-in page as page
  2, the run returns the three reviews, requests pages 1 and 2, and its only screenshot is
  \<open>debug_reviews_page_2.png\<close>; the login-redirect branch is never reached.
\<close>

theorem login_redirect_stops_unflagged:
  "login_redirect signin_page
   \<and> scrape_reviews stale_site demo_product None 3
     = ([anonymous_review, anonymous_review, anonymous_review],
        [Goto (review_url ''B01'' None 1), Goto (review_url ''B01'' None 2),
         Screenshot ''debug_reviews_page_2.png''])"
proof -
  have u: "[1..(3::int)] = [1, 2, 3]" by (simp add: upto_rec1)
  have a: "asin demo_product = ''B01''" "title demo_product = ''Bag''"
    by (simp_all add: demo_product_def)
  have f1: "fst (found_reviews_loop (demo_pages 1) found_selectors)"
    by (simp add: demo_pages_def page_with_reviews_def found_selectors_def)
  have f2: "\<not> fst (found_reviews_loop signin_page found_selectors)"
    by (simp add: signin_page_def found_selectors_def)
  have n: "str_int 2 = ''2''" by code_simp
  have "scrape_reviews stale_site demo_product None 3
     = ([anonymous_review, anonymous_review, anonymous_review],
        [Goto (review_url ''B01'' None 1), Goto (review_url ''B01'' None 2),
         Screenshot ''debug_reviews_page_2.png''])"
    unfolding scrape_reviews_def u
    using f1 f2 by (simp add: a Let_def stale_site_urls first_page_reviews n)
  then show ?thesis using signin_page_is_redirect by (rule conjI [rotated])
qed
section \<open>The product loop of discovery\<close>















section \<open>The fields of one review\<close>

lemma field_read:
  "(if length (el_select e sel) > 0 then text_content (el_select e sel) else Inr (Some d))
     = (if single e sel then Inr (field_text e sel d) else Inl StrictModeViolation)"
  by (auto simp: single_def field_text_def text_content_def split: list.splits)

lemma field_text_default: "el_select e sel = [] \<Longrightarrow> field_text e sel d = Some d"
  by (simp add: field_text_def)

lemma extract_review_readable:
  assumes "review_readable e"
  shows \<open>\<exists>r. extract_review a t e = Inr r \<and> product_id r = a \<and> product_title r = t
      \<and> (el_select e ''.a-profile-name'' = [] \<longrightarrow> reviewer r = ''Anonymous'')
      \<and> (el_select e ''[data-hook="review-star-rating"], [data-hook="cmps-review-star-rating"]'' = []
            \<longrightarrow> rating r = 0)
      \<and> (el_select e ''[data-hook="review-date"]'' = [] \<longrightarrow> date r = [])
      \<and> (el_select e ''[data-hook="review-body"]'' = [] \<longrightarrow> content r = [])
      \<and> verified_purchase r = (el_select e ''[data-hook="avp-badge"]'' \<noteq> [])
      \<and> (el_select e ''[data-hook="helpful-vote-statement"]'' = [] \<longrightarrow> helpful_votes r = 0)\<close>
proof -
  let ?t2 = \<open>field_text e
      ''[data-hook="review-star-rating"], [data-hook="cmps-review-star-rating"]'' []\<close>
  let ?t3 = \<open>field_text e ''[data-hook="review-date"]'' []\<close>
  let ?t5 = \<open>field_text e ''[data-hook="helpful-vote-statement"]'' []\<close>
  have s: \<open>single e ''.a-profile-name''\<close>
    \<open>single e ''[data-hook="review-star-rating"], [data-hook="cmps-review-star-rating"]''\<close>
    \<open>single e ''[data-hook="review-date"]''\<close>
    \<open>single e ''[data-hook="review-body"]''\<close>
    \<open>single e ''[data-hook="helpful-vote-statement"]''\<close>
    using assms by (simp_all add: review_readable_def)
  obtain n where n: "field_text e ''.a-profile-name'' ''Anonymous'' = Some n"
    using assms by (auto simp: review_readable_def)
  obtain c where c: \<open>field_text e ''[data-hook="review-body"]'' [] = Some c\<close>
    using assms by (auto simp: review_readable_def)
  obtain r where r: "extract_rating_from_stars (str_of ?t2) = Inr r"
    using extract_rating_from_stars_total by blast
  have "votes_in_range (str_of ?t5)" using assms by (simp add: review_readable_def)
  then obtain v where v: "extract_helpful_votes (str_of ?t5) = Inr v"
    using extract_helpful_votes_in_range by blast
  have eq: \<open>extract_review a t e =
      Inr \<lparr>product_id = a, product_title = t, reviewer = strip n, rating = r,
           date = clean_date (str_of ?t3),
           verified_purchase = (length (el_select e ''[data-hook="avp-badge"]'') > 0),
           content = strip c, helpful_votes = v\<rparr>\<close>
    unfolding extract_review_def Let_def field_read
    by (simp add: s n c r v and_then_def strip_opt_def)
  have an: "strip ''Anonymous'' = ''Anonymous''" by (simp add: strip_def is_space_def)
  have d1: "el_select e ''.a-profile-name'' = [] \<longrightarrow> n = ''Anonymous''"
    using n by (auto simp: field_text_def)
  have d2: \<open>el_select e ''[data-hook="review-star-rating"], [data-hook="cmps-review-star-rating"]'' = []
      \<longrightarrow> r = 0\<close>
    using r by (auto simp: field_text_def str_of_def extract_rating_from_stars_def)
  have d3: \<open>el_select e ''[data-hook="review-date"]'' = [] \<longrightarrow> clean_date (str_of ?t3) = []\<close>
    by (auto simp: field_text_def str_of_def clean_date_def)
  have d4: \<open>el_select e ''[data-hook="review-body"]'' = [] \<longrightarrow> c = []\<close>
    using c by (auto simp: field_text_def)
  have d5: \<open>el_select e ''[data-hook="helpful-vote-statement"]'' = [] \<longrightarrow> v = 0\<close>
    using v by (auto simp: field_text_def str_of_def extract_helpful_votes_def)
  show ?thesis
    unfolding eq using d1 d2 d3 d4 d5 an by auto
qed

lemma extract_review_emitted_readable:
  assumes "extract_review a t e = Inr r"
  shows "review_readable e"
  using assms unfolding extract_review_def Let_def field_read and_then_def
  by (auto simp: review_readable_def strip_opt_def
      split: sum.splits if_splits option.splits dest: extract_helpful_votes_value)

lemma extract_review_dropped:
  assumes "\<not> review_readable e"
  shows "\<exists>x. extract_review a t e = Inl x"
proof (cases "extract_review a t e")
  case (Inl x)
  then show ?thesis by blast
next
  case (Inr r)
  then show ?thesis using assms extract_review_emitted_readable by blast
qed

lemma reviews_loop_readable:
  "length (reviews_loop a t els) = length (filter review_readable els)"
proof (induction els)
  case Nil
  then show ?case by simp
next
  case (Cons e els)
  show ?case
  proof (cases "review_readable e")
    case True
    then obtain r where "extract_review a t e = Inr r"
      using extract_review_readable [of e a t] by auto
    then show ?thesis using Cons True by simp
  next
    case False
    then obtain x where "extract_review a t e = Inl x"
      using extract_review_dropped by blast
    then show ?thesis using Cons False by simp
  qed
qed

text \<open>
  C9, as the code has it.  For a matched review element each field is resolved on its own,
  and a field whose selector matches nothing takes its default: \<open>Anonymous\<close> for the
  reviewer, 0.0 for the rating, the empty string for the date and for the content, false
  for the verified-purchase flag and 0 for the helpful votes.  The Review is emitted
  exactly when no field raises while it is read: every field selector matches at most one
  element, a matched reviewer or content element has a text, and the number of helpful
  votes has at most 4300 digits.  Any other review element is dropped.  So an element is
  never dropped because a selector matches nothing.
\<close>

theorem unresolved_fields_take_defaults:
  \<open>(review_readable e \<longrightarrow>
      (\<exists>r. extract_review a t e = Inr r \<and> product_id r = a \<and> product_title r = t
        \<and> (el_select e ''.a-profile-name'' = [] \<longrightarrow> reviewer r = ''Anonymous'')
        \<and> (el_select e ''[data-hook="review-star-rating"], [data-hook="cmps-review-star-rating"]'' = []
              \<longrightarrow> rating r = 0)
        \<and> (el_select e ''[data-hook="review-date"]'' = [] \<longrightarrow> date r = [])
        \<and> (el_select e ''[data-hook="review-body"]'' = [] \<longrightarrow> content r = [])
        \<and> verified_purchase r = (el_select e ''[data-hook="avp-badge"]'' \<noteq> [])
        \<and> (el_select e ''[data-hook="helpful-vote-statement"]'' = [] \<longrightarrow> helpful_votes r = 0)))
   \<and> (\<not> review_readable e \<longrightarrow> (\<exists>x. extract_review a t e = Inl x))
   \<and> length (reviews_loop a t els) = length (filter review_readable els)\<close>
proof (intro conjI impI)
  assume "review_readable e"
  then show \<open>\<exists>r. extract_review a t e = Inr r \<and> product_id r = a \<and> product_title r = t
        \<and> (el_select e ''.a-profile-name'' = [] \<longrightarrow> reviewer r = ''Anonymous'')
        \<and> (el_select e ''[data-hook="review-star-rating"], [data-hook="cmps-review-star-rating"]'' = []
              \<longrightarrow> rating r = 0)
        \<and> (el_select e ''[data-hook="review-date"]'' = [] \<longrightarrow> date r = [])
        \<and> (el_select e ''[data-hook="review-body"]'' = [] \<longrightarrow> content r = [])
        \<and> verified_purchase r = (el_select e ''[data-hook="avp-badge"]'' \<noteq> [])
        \<and> (el_select e ''[data-hook="helpful-vote-statement"]'' = [] \<longrightarrow> helpful_votes r = 0)\<close>
    by (rule extract_review_readable)
next
  assume "\<not> review_readable e"
  then show "\<exists>x. extract_review a t e = Inl x"
    by (rule extract_review_dropped)
next
  show "length (reviews_loop a t els) = length (filter review_readable els)"
    by (rule reviews_loop_readable)
qed

lemma bare_review_readable: "review_readable bare_review"
  by (simp add: review_readable_def single_def field_text_def bare_review_def str_of_def
      votes_in_range_def helpful_no_match_empty)

lemma two_names_not_readable: "\<not> review_readable two_names"
  by (simp add: review_readable_def single_def two_names_def)

theorem unresolved_fields_take_defaults_witness:
  "(\<exists>r. extract_review ''B01'' ''Bag'' bare_review = Inr r
      \<and> reviewer r = ''Anonymous'' \<and> rating r = 0 \<and> date r = [] \<and> content r = []
      \<and> verified_purchase r = False \<and> helpful_votes r = 0)
   \<and> (\<exists>x. extract_review ''B01'' ''Bag'' two_names = Inl x)
   \<and> length (reviews_loop ''B01'' ''Bag'' [bare_review, two_names, bare_review]) = 2"
proof -
  note t = unresolved_fields_take_defaults
    [where e = bare_review and a = "''B01''" and t = "''Bag''"
      and els = "[bare_review, two_names, bare_review]"]
  note t2 = unresolved_fields_take_defaults
    [where e = two_names and a = "''B01''" and t = "''Bag''" and els = "[]"]
  have sel: "el_select bare_review = (\<lambda>_. [])" by (simp add: bare_review_def)
  have w1: "\<exists>r. extract_review ''B01'' ''Bag'' bare_review = Inr r
      \<and> reviewer r = ''Anonymous'' \<and> rating r = 0 \<and> date r = [] \<and> content r = []
      \<and> verified_purchase r = False \<and> helpful_votes r = 0"
    using t [THEN conjunct1, THEN mp, OF bare_review_readable] unfolding sel by auto
  have w2: "\<exists>x. extract_review ''B01'' ''Bag'' two_names = Inl x"
    using t2 [THEN conjunct2, THEN conjunct1, THEN mp, OF two_names_not_readable] .
  have w3: "length (reviews_loop ''B01'' ''Bag'' [bare_review, two_names, bare_review]) = 2"
    using t [THEN conjunct2, THEN conjunct2] bare_review_readable two_names_not_readable
    by simp
  show ?thesis using w1 w2 w3 by (intro conjI)
qed

lemma extract_two_names:
  "extract_review ''B01'' ''Bag'' two_names = Inl StrictModeViolation"
  by (simp add: extract_review_def two_names_def leaf_def and_then_def text_content_def)

lemma extract_no_text_name:
  "extract_review ''B01'' ''Bag'' no_text_name = Inl AttributeError"
  by (simp add: extract_review_def no_text_name_def and_then_def text_content_def str_of_def
      strip_opt_def extract_rating_from_stars_def clean_date_def extract_helpful_votes_def)

lemma extract_long_votes:
  "extract_review ''B01'' ''Bag'' long_votes = Inl ValueError"
  by (simp add: extract_review_def long_votes_def leaf_def and_then_def text_content_def
      str_of_def extract_rating_from_stars_def clean_date_def long_digits_votes)

theorem unresolved_reviewer_is_anonymous:
  "el_select bare_review ''.a-profile-name'' = []
   \<and> extract_review ''B01'' ''Bag'' bare_review = Inr anonymous_review
   \<and> reviewer anonymous_review = ''Anonymous''
   \<and> reviewer anonymous_review \<noteq> []
   \<and> length (el_select two_names ''.a-profile-name'') = 2
   \<and> reviews_loop ''B01'' ''Bag'' [two_names] = []
   \<and> reviews_loop ''B01'' ''Bag'' [no_text_name] = []
   \<and> reviews_loop ''B01'' ''Bag'' [long_votes] = []"
proof -
  have a: "el_select bare_review ''.a-profile-name'' = []" by (simp add: bare_review_def)
  have b: "reviewer anonymous_review = ''Anonymous''" "reviewer anonymous_review \<noteq> []"
    by (simp_all add: anonymous_review_def)
  have c: "length (el_select two_names ''.a-profile-name'') = 2" by (simp add: two_names_def)
  show ?thesis
    using a b c
    by (simp add: extract_bare_review extract_two_names extract_no_text_name extract_long_votes)
qed
section \<open>The challenge check of the login\<close>

lemma challenge_loop_quiet:
  "quiet b tr sels \<Longrightarrow> challenge_loop b sels tr = (None, tr @ inspections sels)"
  by (induction sels arbitrary: tr) (simp_all add: inspections_def)

lemma error_loop_quiet:
  "quiet b tr sels \<Longrightarrow> error_loop b sels tr = (None, tr @ inspections sels)"
  by (induction sels arbitrary: tr) (simp_all add: inspections_def)

lemma challenge_loop_first_visible:
  "first_visible b tr sels i \<Longrightarrow>
   challenge_loop b sels tr = (Some False, tr @ inspections (take (Suc i) sels))"
proof (induction sels arbitrary: tr i)
  case Nil
  then show ?case by simp
next
  case (Cons s sels)
  show ?case
  proof (cases i)
    case 0
    then show ?thesis using Cons.prems by (simp add: inspections_def)
  next
    case (Suc j)
    then have "first_visible b (tr @ [IsVisible (Loc s)]) sels j"
      and "\<not> raises b tr (IsVisible (Loc s))" and "\<not> visible b tr (Loc s)"
      using Cons.prems by simp_all
    then show ?thesis using Cons.IH [of "tr @ [IsVisible (Loc s)]" j] Suc
      by (simp add: inspections_def)
  qed
qed

lemma error_loop_first_visible:
  "first_visible b tr sels i \<Longrightarrow>
   error_loop b sels tr
     = (Some False, tr @ inspections (take (Suc i) sels) @ [TextContent (Loc (sels ! i))])"
proof (induction sels arbitrary: tr i)
  case Nil
  then show ?case by simp
next
  case (Cons s sels)
  show ?case
  proof (cases i)
    case 0
    then show ?thesis using Cons.prems by (simp add: inspections_def)
  next
    case (Suc j)
    then have "first_visible b (tr @ [IsVisible (Loc s)]) sels j"
      and "\<not> raises b tr (IsVisible (Loc s))" and "\<not> visible b tr (Loc s)"
      using Cons.prems by simp_all
    then show ?thesis using Cons.IH [of "tr @ [IsVisible (Loc s)]" j] Suc
      by (simp add: inspections_def)
  qed
qed

lemma login_after_submit:
  assumes "submit_credentials b email password = (None, tr0)"
    and "challenge_check b tr0 = (Some v, tr)"
  shows "automated_login b email password = (v, tr)"
  using assms by (simp add: automated_login_def next_step_def)

lemma safe_snoc: "list_all safe tr \<Longrightarrow> safe a \<Longrightarrow> list_all safe (tr @ [a])"
  by simp

lemma safe_plain [simp]:
  "safe (PageGoto u)" "safe (PageWait n)" "safe PageTitle" "safe PageScreenshot"
  "safe PageContent" "safe (IsVisible t)"
  by (simp_all add: safe_def)

lemma safe_debug: "list_all safe tr \<Longrightarrow> list_all safe (debug_page_state b tr)"
  by (simp add: debug_page_state_def)

lemma safe_perform:
  assumes "safe a" and "\<And>tr'. list_all safe tr' \<Longrightarrow> list_all safe (snd (k tr'))"
    and "list_all safe tr"
  shows "list_all safe (snd (perform b a k tr))"
  using assms by (simp add: perform_def)

lemma safe_next_step:
  assumes "list_all safe (snd r)" and "\<And>tr. list_all safe tr \<Longrightarrow> list_all safe (snd (k tr))"
  shows "list_all safe (snd (next_step r k))"
  using assms by (cases r) (auto simp: next_step_def split: option.splits)

lemma safe_click_loop:
  assumes "\<forall>s \<in> set sels. safe (Click (mk s))"
  shows "list_all safe tr \<Longrightarrow> list_all safe (snd (click_loop b mk ms sels tr))"
  using assms by (induction sels arbitrary: tr) simp_all

lemma safe_fill_loop:
  assumes "\<forall>s \<in> set sels. safe (Clear (Loc s)) \<and> safe (Fill (Loc s) v)"
  shows "list_all safe tr \<Longrightarrow> list_all safe (snd (fill_loop b v sels tr))"
  using assms by (induction sels arbitrary: tr) simp_all

lemma safe_challenge_loop:
  "list_all safe tr \<Longrightarrow> list_all safe (snd (challenge_loop b sels tr))"
  by (induction sels arbitrary: tr) simp_all

lemma safe_error_loop:
  assumes "\<forall>s \<in> set sels. safe (TextContent (Loc s))"
  shows "list_all safe tr \<Longrightarrow> list_all safe (snd (error_loop b sels tr))"
  using assms by (induction sels arbitrary: tr) simp_all

lemma safe_account_loop:
  assumes "\<forall>s \<in> set sels. safe (TextContent (Loc s))"
  shows "list_all safe tr \<Longrightarrow> list_all safe (snd (account_loop b sels tr))"
  using assms by (induction sels arbitrary: tr) (simp_all add: Let_def)

lemma selectors_safe:
  "\<forall>s \<in> set sign_in_selectors. safe (Click (LocFirst s))"
  "\<forall>s \<in> set continue_selectors. safe (Click (Loc s))"
  "\<forall>s \<in> set signin_selectors. safe (Click (Loc s))"
  "\<forall>s \<in> set email_selectors. safe (Clear (Loc s)) \<and> safe (Fill (Loc s) v)"
  "\<forall>s \<in> set password_selectors. safe (Clear (Loc s)) \<and> safe (Fill (Loc s) v)"
  "\<forall>s \<in> set error_selectors. safe (TextContent (Loc s))"
  "\<forall>s \<in> set account_selectors. safe (TextContent (Loc s))"
  by (simp_all add: safe_def sign_in_selectors_def continue_selectors_def signin_selectors_def
      email_selectors_def password_selectors_def error_selectors_def account_selectors_def
      captcha_selectors_def twofa_selectors_def)

lemma safe_open_home: "list_all safe tr \<Longrightarrow> list_all safe (snd (open_home b tr))"
  unfolding open_home_def
  by (intro safe_perform) (simp_all add: safe_debug Let_def)

lemma safe_open_sign_in: "list_all safe tr \<Longrightarrow> list_all safe (snd (open_sign_in b tr))"
proof -
  assume tr: "list_all safe tr"
  obtain c tr1 where c: "click_loop b LocFirst 3000 sign_in_selectors tr = (c, tr1)"
    by (cases "click_loop b LocFirst 3000 sign_in_selectors tr")
  have tr1: "list_all safe tr1"
    using safe_click_loop [OF selectors_safe(1) tr, where b = b and ms = 3000] c by simp
  have "list_all safe (snd (perform b (PageGoto signin_url) (perform b (PageWait 3000) (\<lambda>tr2.
              (None, debug_page_state b tr2))) tr1))"
    by (intro safe_perform) (simp_all add: safe_debug tr1)
  then have "list_all safe (snd (case (c, tr1) of
          (True, tr1) \<Rightarrow> (None, tr1)
        | (False, tr1) \<Rightarrow>
            perform b (PageGoto signin_url) (perform b (PageWait 3000) (\<lambda>tr2.
              (None, debug_page_state b tr2))) tr1))"
    using tr1 by (cases c) simp_all
  then show ?thesis
    unfolding open_sign_in_def c
    by (rule safe_next_step) (simp add: safe_debug Let_def)
qed

lemma safe_enter_email: "list_all safe tr \<Longrightarrow> list_all safe (snd (enter_email b email tr))"
  using safe_fill_loop [OF selectors_safe(4), where tr = tr and v = email and b = b]
  by (cases "fill_loop b email email_selectors tr")
     (auto simp: enter_email_def safe_debug split: bool.splits)

lemma safe_click_continue: "list_all safe tr \<Longrightarrow> list_all safe (snd (click_continue b tr))"
  using safe_click_loop [OF selectors_safe(2), where tr = tr and b = b and ms = 3000]
  by (cases "click_loop b Loc 3000 continue_selectors tr")
     (auto simp: click_continue_def split: bool.splits)

lemma safe_enter_password:
  "list_all safe tr \<Longrightarrow> list_all safe (snd (enter_password b password tr))"
proof -
  assume tr: "list_all safe tr"
  have "list_all safe (snd (case fill_loop b password password_selectors tr' of
         (True, tr1) \<Rightarrow> (None, tr1)
       | (False, tr1) \<Rightarrow> (Some False, tr1)))" if "list_all safe tr'" for tr'
    using safe_fill_loop [OF selectors_safe(5), where tr = tr' and v = password and b = b] that
    by (cases "fill_loop b password password_selectors tr'") (auto split: bool.splits)
  then show ?thesis
    unfolding enter_password_def using tr by (intro safe_perform) simp_all
qed

lemma safe_click_sign_in: "list_all safe tr \<Longrightarrow> list_all safe (snd (click_sign_in b tr))"
  using safe_click_loop [OF selectors_safe(3), where tr = tr and b = b and ms = 5000]
  by (cases "click_loop b Loc 5000 signin_selectors tr")
     (auto simp: click_sign_in_def split: bool.splits)

lemma safe_submit_credentials:
  "list_all safe (snd (submit_credentials b email password))"
  unfolding submit_credentials_def
  by (intro safe_next_step safe_open_home safe_open_sign_in safe_enter_email
      safe_click_continue safe_enter_password safe_click_sign_in) simp_all

lemma safe_challenge_check: "list_all safe tr \<Longrightarrow> list_all safe (snd (challenge_check b tr))"
  unfolding challenge_check_def
  by (intro safe_perform safe_next_step safe_challenge_loop safe_error_loop selectors_safe)
     simp_all

lemma safe_verify_login: "list_all safe tr \<Longrightarrow> list_all safe (snd (verify_login b tr))"
proof -
  assume tr: "list_all safe tr"
  have "list_all safe (snd (case account_loop b account_selectors tr' of
      (v, tr1) \<Rightarrow> (Some v, tr1)))" if "list_all safe tr'" for tr'
    using safe_account_loop [OF selectors_safe(7), where tr = tr' and b = b] that
    by (cases "account_loop b account_selectors tr'") simp
  then show ?thesis
    unfolding verify_login_def using tr by (intro safe_perform) simp_all
qed

lemma safe_automated_login: "list_all safe (snd (automated_login b email password))"
proof -
  have "list_all safe (snd (next_step (next_step (submit_credentials b email password)
      (challenge_check b)) (verify_login b)))"
    by (intro safe_next_step safe_submit_credentials safe_challenge_check safe_verify_login)
  then show ?thesis
    by (cases "next_step (next_step (submit_credentials b email password)
      (challenge_check b)) (verify_login b)")
       (auto simp: automated_login_def split: option.splits)
qed

lemma challenge_check_captcha:
  assumes "\<not> raises b tr0 (PageWait 3000)"
    and "first_visible b (tr0 @ [PageWait 3000]) captcha_selectors i"
  shows "challenge_check b tr0
    = (Some False, tr0 @ PageWait 3000 # inspections (take (Suc i) captcha_selectors))"
  using assms(1) challenge_loop_first_visible [OF assms(2)]
  by (simp add: challenge_check_def perform_def next_step_def)

lemma challenge_check_twofa:
  assumes "\<not> raises b tr0 (PageWait 3000)"
    and "quiet b (tr0 @ [PageWait 3000]) captcha_selectors"
    and "first_visible b (tr0 @ PageWait 3000 # inspections captcha_selectors) twofa_selectors i"
  shows "challenge_check b tr0
    = (Some False, tr0 @ PageWait 3000 # inspections captcha_selectors
         @ inspections (take (Suc i) twofa_selectors))"
proof -
  have "first_visible b ((tr0 @ [PageWait 3000]) @ inspections captcha_selectors) twofa_selectors i"
    using assms(3) by simp
  from challenge_loop_first_visible [OF this] show ?thesis
    using assms(1) challenge_loop_quiet [OF assms(2)]
    by (simp add: challenge_check_def perform_def next_step_def)
qed

lemma challenge_check_error:
  assumes "\<not> raises b tr0 (PageWait 3000)"
    and "quiet b (tr0 @ [PageWait 3000]) captcha_selectors"
    and "quiet b (tr0 @ PageWait 3000 # inspections captcha_selectors) twofa_selectors"
    and "first_visible b
      (tr0 @ PageWait 3000 # inspections captcha_selectors @ inspections twofa_selectors)
      error_selectors i"
  shows "challenge_check b tr0
    = (Some False, tr0 @ PageWait 3000 # inspections captcha_selectors
         @ inspections twofa_selectors @ inspections (take (Suc i) error_selectors)
         @ [TextContent (Loc (error_selectors ! i))])"
proof -
  have q: "quiet b ((tr0 @ [PageWait 3000]) @ inspections captcha_selectors) twofa_selectors"
    using assms(3) by simp
  have "first_visible b
      (((tr0 @ [PageWait 3000]) @ inspections captcha_selectors) @ inspections twofa_selectors)
      error_selectors i"
    using assms(4) by simp
  from error_loop_first_visible [OF this] show ?thesis
    using assms(1) challenge_loop_quiet [OF assms(2)] challenge_loop_quiet [OF q]
    by (simp add: challenge_check_def perform_def next_step_def)
qed

text \<open>
  C4.  Once the credentials are submitted, the automaton inspects the CAPTCHA candidates,
  then the 2FA candidates, then the error-message candidates, each list in its declared
  order.  At the first visible candidate it returns \<open>False\<close> (manual intervention needed),
  and what it has done since the submission is only the wait and the \<open>is_visible\<close>
  inspections up to that candidate (for an error message, also one read of the message
  text): no click, no clear, no fill.  In no run at all does the automaton click, clear,
  fill or read the text of a CAPTCHA or 2FA candidate.
\<close>

theorem challenge_detected_means_manual:
  "(submit_credentials b email password = (None, tr0) \<and> \<not> raises b tr0 (PageWait 3000)
      \<and> first_visible b (tr0 @ [PageWait 3000]) captcha_selectors i \<longrightarrow>
    automated_login b email password
      = (False, tr0 @ PageWait 3000 # inspections (take (Suc i) captcha_selectors)))
   \<and> (submit_credentials b email password = (None, tr0) \<and> \<not> raises b tr0 (PageWait 3000)
      \<and> quiet b (tr0 @ [PageWait 3000]) captcha_selectors
      \<and> first_visible b (tr0 @ PageWait 3000 # inspections captcha_selectors) twofa_selectors i \<longrightarrow>
    automated_login b email password
      = (False, tr0 @ PageWait 3000 # inspections captcha_selectors
           @ inspections (take (Suc i) twofa_selectors)))
   \<and> (submit_credentials b email password = (None, tr0) \<and> \<not> raises b tr0 (PageWait 3000)
      \<and> quiet b (tr0 @ [PageWait 3000]) captcha_selectors
      \<and> quiet b (tr0 @ PageWait 3000 # inspections captcha_selectors) twofa_selectors
      \<and> first_visible b
          (tr0 @ PageWait 3000 # inspections captcha_selectors @ inspections twofa_selectors)
          error_selectors i \<longrightarrow>
    automated_login b email password
      = (False, tr0 @ PageWait 3000 # inspections captcha_selectors
           @ inspections twofa_selectors @ inspections (take (Suc i) error_selectors)
           @ [TextContent (Loc (error_selectors ! i))]))
   \<and> list_all safe (snd (automated_login b email password))"
proof (intro conjI impI)
  assume h: "submit_credentials b email password = (None, tr0) \<and> \<not> raises b tr0 (PageWait 3000)
      \<and> first_visible b (tr0 @ [PageWait 3000]) captcha_selectors i"
  then have "challenge_check b tr0
      = (Some False, tr0 @ PageWait 3000 # inspections (take (Suc i) captcha_selectors))"
    using challenge_check_captcha by blast
  then show "automated_login b email password
      = (False, tr0 @ PageWait 3000 # inspections (take (Suc i) captcha_selectors))"
    using h login_after_submit by blast
next
  assume h: "submit_credentials b email password = (None, tr0) \<and> \<not> raises b tr0 (PageWait 3000)
      \<and> quiet b (tr0 @ [PageWait 3000]) captcha_selectors
      \<and> first_visible b (tr0 @ PageWait 3000 # inspections captcha_selectors) twofa_selectors i"
  then have "challenge_check b tr0
      = (Some False, tr0 @ PageWait 3000 # inspections captcha_selectors
           @ inspections (take (Suc i) twofa_selectors))"
    using challenge_check_twofa by blast
  then show "automated_login b email password
      = (False, tr0 @ PageWait 3000 # inspections captcha_selectors
           @ inspections (take (Suc i) twofa_selectors))"
    using h login_after_submit by blast
next
  assume h: "submit_credentials b email password = (None, tr0) \<and> \<not> raises b tr0 (PageWait 3000)
      \<and> quiet b (tr0 @ [PageWait 3000]) captcha_selectors
      \<and> quiet b (tr0 @ PageWait 3000 # inspections captcha_selectors) twofa_selectors
      \<and> first_visible b
          (tr0 @ PageWait 3000 # inspections captcha_selectors @ inspections twofa_selectors)
          error_selectors i"
  then have "challenge_check b tr0
      = (Some False, tr0 @ PageWait 3000 # inspections captcha_selectors
           @ inspections twofa_selectors @ inspections (take (Suc i) error_selectors)
           @ [TextContent (Loc (error_selectors ! i))])"
    using challenge_check_error by blast
  then show "automated_login b email password
      = (False, tr0 @ PageWait 3000 # inspections captcha_selectors
           @ inspections twofa_selectors @ inspections (take (Suc i) error_selectors)
           @ [TextContent (Loc (error_selectors ! i))])"
    using h login_after_submit by blast
next
  show "list_all safe (snd (automated_login b email password))"
    by (rule safe_automated_login)
qed

lemma demo_open_home:
  "open_home demo_browser []
     = (None, [PageGoto home_url, PageWait 3000, PageTitle, PageScreenshot, PageContent, PageTitle])"
  by (simp add: open_home_def perform_def debug_page_state_def demo_browser_def lower_def
      lower_char_def startswith_def)

lemma demo_open_sign_in:
  "open_sign_in demo_browser tr
     = (None, tr @ [IsVisible (LocFirst ''#nav-link-accountList''),
          IsVisible (LocFirst ''a[href*='signin']''), IsVisible (LocFirst ''#nav-signin-tooltip a''),
          IsVisible (LocFirst ''.nav-signin-tooltip a''),
          PageGoto signin_url, PageWait 3000, PageTitle, PageScreenshot, PageContent])"
  by (simp add: open_sign_in_def next_step_def perform_def debug_page_state_def demo_browser_def
      sign_in_selectors_def startswith_def)

lemma demo_enter_email:
  "enter_email demo_browser v tr
     = (None, tr @ [IsVisible (Loc ''#ap_email''), Clear (Loc ''#ap_email''), Fill (Loc ''#ap_email'') v])"
  by (simp add: enter_email_def demo_browser_def email_selectors_def)

lemma demo_click_continue:
  "click_continue demo_browser tr
     = (None, tr @ [IsVisible (Loc ''#continue''), Click (Loc ''#continue''), PageWait 3000])"
  by (simp add: click_continue_def demo_browser_def continue_selectors_def)

lemma demo_enter_password:
  "enter_password demo_browser v tr
     = (None, tr @ [PageWait 2000, IsVisible (Loc ''#ap_password''), Clear (Loc ''#ap_password''),
          Fill (Loc ''#ap_password'') v])"
  by (simp add: enter_password_def perform_def demo_browser_def password_selectors_def)

lemma demo_click_sign_in:
  "click_sign_in demo_browser tr
     = (None, tr @ [IsVisible (Loc ''#signInSubmit''), Click (Loc ''#signInSubmit''), PageWait 5000])"
  by (simp add: click_sign_in_def demo_browser_def signin_selectors_def)

lemma demo_submit:
  "submit_credentials demo_browser ''me@example.org'' ''secret'' = (None, demo_submitted)"
  by (simp add: submit_credentials_def next_step_def demo_open_home demo_open_sign_in
      demo_enter_email demo_click_continue demo_enter_password demo_click_sign_in
      demo_submitted_def)

theorem challenge_detected_means_manual_witness:
  "automated_login demo_browser ''me@example.org'' ''secret''
     = (False, demo_submitted @ [PageWait 3000, IsVisible (Loc ''#auth-captcha-image'')])
   \<and> list_all safe (demo_submitted @ [PageWait 3000, IsVisible (Loc ''#auth-captcha-image'')])"
proof -
  note t = challenge_detected_means_manual
    [where b = demo_browser and email = "''me@example.org''" and password = "''secret''"
      and ?tr0.0 = demo_submitted and i = 0]
  have r: "\<not> raises demo_browser demo_submitted (PageWait 3000)"
    by (simp add: demo_browser_def)
  have f: "first_visible demo_browser (demo_submitted @ [PageWait 3000]) captcha_selectors 0"
    by (simp add: demo_browser_def captcha_selectors_def)
  have w1: "automated_login demo_browser ''me@example.org'' ''secret''
     = (False, demo_submitted @ [PageWait 3000, IsVisible (Loc ''#auth-captcha-image'')])"
    using t [THEN conjunct1] demo_submit r f
    by (simp add: inspections_def captcha_selectors_def)
  have "list_all safe (snd (automated_login demo_browser ''me@example.org'' ''secret''))"
    using t [THEN conjunct2, THEN conjunct2, THEN conjunct2] .
  then have w2: "list_all safe
      (demo_submitted @ [PageWait 3000, IsVisible (Loc ''#auth-captcha-image'')])"
    unfolding w1 by simp
  show ?thesis using w1 w2 by (rule conjI)
qed

end
